theory Spec2Isabelle
  imports Complex_Main "HOL-Library.AList"
begin

section \<open>The CREST classifier of hundo: data model\<close>

text \<open>
  The classifier works on \<open>Bio.Phylo\<close> clade objects. A clade object is identified by
  its address (a natural number); the classifier compares clades with \<open>is\<close> and uses them
  as dictionary keys, so identity is what matters. The \<open>clades\<close> field of every object
  (its ordered children) is given by the tree structure, and the mutable \<open>name\<close> field
  by a store from addresses to optional strings (\<open>None\<close> is an unnamed clade).

  Floating-point values (similarity cutoffs, percent identities, bit scores) are only
  ever compared; they are modelled as rationals, which every finite float is.
\<close>

type_synonym node = nat

datatype clade = Clade (ident: node) (clades: "clade list")

datatype error = TypeError | IndexError | AttributeError | KeyError

text \<open>
  The methods of \<open>Tree\<close> accept a clade object, a string (a node name) or anything else
  (such as \<open>None\<close>); \<open>verify_node\<close> tells them apart with \<open>isinstance\<close>.
\<close>

datatype pyarg = Obj node | Str string | Other

record Tree =
  tree :: clade
  name_of :: "node \<Rightarrow> string option"
  node_names :: "string \<rightharpoonup> node"
  node_ids :: "string option \<rightharpoonup> node"
  assignment_min :: "string \<rightharpoonup> rat"
  parents :: "node \<rightharpoonup> node option"
  no_hits :: "node option"

text \<open>\<open>self.root\<close> and \<open>self.tree.root\<close> are the same object: the root clade.\<close>

definition root :: "Tree \<Rightarrow> node" where
  "root t = ident (tree t)"

text \<open>The depth constants and the depth-to-rank table of class \<open>Tree\<close>.\<close>

definition META :: nat where "META = 1"
definition DOMAIN :: nat where "DOMAIN = 2"
definition SUPERKINGDOM :: nat where "SUPERKINGDOM = 3"
definition KINGDOM :: nat where "KINGDOM = 4"
definition SUBSPECIES :: nat where "SUBSPECIES = 11"

definition depths :: "(nat \<times> string) list" where
  "depths = [(0, ''root''), (1, ''meta''), (2, ''domain''), (3, ''superkingdom''),
             (4, ''kingdom''), (5, ''phylum''), (6, ''class''), (7, ''order''),
             (8, ''family''), (9, ''genus''), (10, ''species''), (11, ''strain'')]"

section \<open>The clade structure\<close>

fun idents :: "clade \<Rightarrow> node list" where
  "idents (Clade n cs) = n # concat (map idents cs)"

text \<open>
  A new \<open>Clade(...)\<close> is an object distinct from every object of the tree.
\<close>

definition fresh_node :: "clade \<Rightarrow> node" where
  "fresh_node tr = Suc (fold max (idents tr) 0)"

text \<open>\<open>parent.clades.append(node)\<close> for the clade object \<open>p\<close> of the tree.\<close>

fun append_clade :: "node \<Rightarrow> node \<Rightarrow> clade \<Rightarrow> clade" where
  "append_clade p new (Clade n cs) =
     Clade n (map (append_clade p new) cs @ (if n = p then [Clade new []] else []))"

text \<open>
  \<open>Bio.Phylo\<close>'s \<open>TreeMixin.get_path(target)\<close>, matching the target by identity: the helper
  \<open>check_in_path\<close> collects the clades from the target up to the root, and the method
  returns them reversed with the root left out (\<open>path[-2::-1]\<close>), or \<open>None\<close> when the
  target is not in the tree. Here the list is built from the top down directly.
\<close>

fun check_in_path :: "node \<Rightarrow> clade \<Rightarrow> node list option"
  and check_children :: "node \<Rightarrow> clade list \<Rightarrow> node list option" where
  "check_in_path target (Clade n cs) =
     (if n = target then Some [n]
      else (case check_children target cs of None \<Rightarrow> None | Some p \<Rightarrow> Some (n # p)))"
| "check_children target [] = None"
| "check_children target (c # cs) =
     (case check_in_path target c of Some p \<Rightarrow> Some p | None \<Rightarrow> check_children target cs)"

definition phylo_get_path :: "clade \<Rightarrow> node \<Rightarrow> node list option" where
  "phylo_get_path tr target = map_option tl (check_in_path target tr)"

section \<open>Class Tree\<close>

text \<open>
  A clade object is always true in a boolean context (\<open>Clade.__bool__\<close> returns \<open>True\<close>),
  so \<open>if not node\<close> holds exactly for \<open>None\<close>.
\<close>

fun verify_node :: "Tree \<Rightarrow> pyarg \<Rightarrow> node option" where
  "verify_node t (Obj n) = Some n"
| "verify_node t (Str nn) = node_names t nn"
| "verify_node t Other = None"

definition add_node :: "Tree \<Rightarrow> string \<Rightarrow> pyarg \<Rightarrow> rat \<Rightarrow> node option \<times> Tree" where
  "add_node t nodename parent amin =
     (if node_names t nodename \<noteq> None then (None, t)
      else let node = fresh_node (tree t) in
        (case verify_node t parent of
           None \<Rightarrow> (None, t)
         | Some p \<Rightarrow>
             (Some node,
              t\<lparr>tree := append_clade p node (tree t),
                name_of := (name_of t)(node := Some nodename),
                node_names := (node_names t)(nodename \<mapsto> node),
                assignment_min := (assignment_min t)(nodename \<mapsto> amin),
                parents := (parents t)(node \<mapsto> Some p)\<rparr>)))"

text \<open>
  \<open>get_all_children\<close> walks the clades below \<open>node\<close> in post-order, appends each to
  \<open>children\<close> and records its parent in \<open>self.parents\<close> (\<open>None\<close> for the clade the
  walk starts from).
\<close>

fun get_all_children ::
  "clade \<Rightarrow> node option \<Rightarrow> node list \<times> (node \<rightharpoonup> node option) \<Rightarrow> node list \<times> (node \<rightharpoonup> node option)"
where
  "get_all_children (Clade n cs) parent acc =
     (case fold (\<lambda>c. get_all_children c (Some n)) cs acc of
        (children, ps) \<Rightarrow> (children @ [n], ps(n \<mapsto> parent)))"

text \<open>
  The four accession patterns: \<open>k\<close> non-digits followed by \<open>m\<close> digits and the end of
  the string, matched from the start of the name.
\<close>

definition is_digit :: "char \<Rightarrow> bool" where
  "is_digit c = (c \<in> set ''0123456789'')"

definition accession_re :: "(nat \<times> nat) list" where
  "accession_re = [(2, 6), (1, 5), (4, 9), (4, 8)]"

fun re_match :: "nat \<times> nat \<Rightarrow> string \<Rightarrow> bool" where
  "re_match (k, m) s =
     (length s = k + m \<and> list_all (\<lambda>c. \<not> is_digit c) (take k s) \<and> list_all is_digit (drop k s))"

text \<open>The test \<open>accession_re[0].match(name) or ... or accession_re[3].match(name)\<close>.\<close>

definition is_accession :: "string \<Rightarrow> bool" where
  "is_accession name =
     (re_match (accession_re ! 0) name \<or> re_match (accession_re ! 1) name \<or>
      re_match (accession_re ! 2) name \<or> re_match (accession_re ! 3) name)"

text \<open>
  One line of the mapping file, already split: \<open>toks[0]\<close>, \<open>toks[1]\<close> and
  \<open>float(toks[3])\<close>.
\<close>

type_synonym map_row = "string \<times> string \<times> rat"

fun read_map_row :: "map_row \<Rightarrow> Tree \<Rightarrow> Tree" where
  "read_map_row (node_id, name, similarity_cutoff) t =
     (case node_ids t (Some node_id) of
        Some n \<Rightarrow>
          (let t' = t\<lparr>node_names := (node_names t)(name \<mapsto> n)\<rparr> in
           if similarity_cutoff \<ge> 0 \<and> \<not> is_accession name
           then t'\<lparr>assignment_min := (assignment_min t')(name \<mapsto> similarity_cutoff),
                   name_of := (name_of t')(n := Some name)\<rparr>
           else t')
      | None \<Rightarrow> t)"

text \<open>
  \<open>Tree.__init__\<close>: \<open>tr\<close> and \<open>nm\<close> are the tree read by \<open>Phylo.read\<close> (structure and
  names), \<open>rows\<close> the lines of the mapping file.
\<close>

definition Tree_init :: "clade \<Rightarrow> (node \<Rightarrow> string option) \<Rightarrow> map_row list \<Rightarrow> Tree" where
  "Tree_init tr nm rows =
     (let t0 = \<lparr>tree = tr, name_of = nm, node_names = Map.empty, node_ids = Map.empty,
                assignment_min = Map.empty, parents = Map.empty, no_hits = None\<rparr>;
          (nh, t1) = add_node t0 ''No hits'' (Obj (root t0)) 0;
          t2 = t1\<lparr>no_hits := nh\<rparr>;
          (children, ps) = get_all_children (tree t2) None ([], parents t2);
          t3 = t2\<lparr>parents := ps\<rparr>;
          t4 = t3\<lparr>node_ids := fold (\<lambda>child ids. ids(name_of t3 child \<mapsto> child)) children (node_ids t3)\<rparr>
      in fold read_map_row rows t4)"

text \<open>
  \<open>get_parent\<close> answers from \<open>self.parents\<close> when the clade is a key there (the stored
  parent may be \<open>None\<close>, as it is for the root); otherwise it asks the tree for the path
  and caches the second-to-last clade, and falls back to the root when there is no
  path of two clades or more. The updated tree object is returned with the result.
\<close>

definition get_parent :: "Tree \<Rightarrow> pyarg \<Rightarrow> node option \<times> Tree" where
  "get_parent t node =
     (case verify_node t node of
        None \<Rightarrow> (None, t)
      | Some n \<Rightarrow>
          (case parents t n of
             Some p \<Rightarrow> (p, t)
           | None \<Rightarrow>
               (case phylo_get_path (tree t) n of
                  None \<Rightarrow> (Some (root t), t)
                | Some p \<Rightarrow>
                    if p \<noteq> [] \<and> length p > 1
                    then (let parent = p ! (length p - 2)
                          in (Some parent, t\<lparr>parents := (parents t)(n \<mapsto> Some parent)\<rparr>))
                    else (Some (root t), t))))"

text \<open>
  The loop of \<open>get_path\<close>. It runs while \<open>parent\<close> is a clade other than the root, and
  need not terminate when the parent table has a cycle: \<open>None\<close> is no result.
\<close>

partial_function (option) get_path_loop ::
  "Tree \<Rightarrow> node option \<Rightarrow> node list \<Rightarrow> (node option \<times> node list \<times> Tree) option"
where
  "get_path_loop t parent plist =
     (case parent of
        None \<Rightarrow> Some (None, plist, t)
      | Some p \<Rightarrow>
          if p = root t then Some (Some p, plist, t)
          else (case get_parent t (Obj p) of
                  (parent', t') \<Rightarrow> get_path_loop t' parent' (p # plist)))"

declare get_path_loop.simps [code]

text \<open>
  \<open>get_path(node)\<close> for a clade or \<open>None\<close>. The result is the list, or Python's \<open>None\<close>
  when the loop ended without a parent (the method logs and falls off its end). For
  \<open>node = None\<close> the parent is \<open>None\<close> at once, since \<open>verify_node(None)\<close> is: the loop does
  not run, and the list \<open>[None]\<close> is never returned.
\<close>

definition get_path :: "Tree \<Rightarrow> node option \<Rightarrow> (node list option \<times> Tree) option" where
  "get_path t node =
     (case node of
        None \<Rightarrow> (case get_parent t Other of (parent, t') \<Rightarrow> Some (None, t'))
      | Some n \<Rightarrow>
          if n = root t then Some (Some [n], t)
          else (case get_parent t (Obj n) of
                  (parent, t') \<Rightarrow>
                    (case get_path_loop t' parent [n] of
                       None \<Rightarrow> None
                     | Some (None, plist, t'') \<Rightarrow> Some (None, t'')
                     | Some (Some p, plist, t'') \<Rightarrow> Some (Some plist, t''))))"

definition get_depth :: "Tree \<Rightarrow> pyarg \<Rightarrow> ((error + nat) \<times> Tree) option" where
  "get_depth t node =
     (case get_path t (verify_node t node) of
        None \<Rightarrow> None
      | Some (None, t') \<Rightarrow> Some (Inl TypeError, t')
      | Some (Some pth, t') \<Rightarrow>
          Some (Inr (if length pth = 1 \<and> pth ! 0 = root t' then 0 else length pth), t'))"

subsection \<open>The lowest common ancestor\<close>

text \<open>\<open>[self.get_path(n) for n in nodes]\<close>, each call working on the tree the previous left.\<close>

fun get_paths :: "Tree \<Rightarrow> node option list \<Rightarrow> (node list option list \<times> Tree) option" where
  "get_paths t [] = Some ([], t)"
| "get_paths t (n # ns) =
     (case get_path t n of
        None \<Rightarrow> None
      | Some (p, t') \<Rightarrow>
          (case get_paths t' ns of
             None \<Rightarrow> None
           | Some (ps, t'') \<Rightarrow> Some (p # ps, t'')))"

text \<open>
  The inner loop \<open>while not lca_path[-1] in path\<close>: the result \<open>None\<close> is the early
  \<open>return self.tree.root\<close>.
\<close>

function shrink_path :: "node list \<Rightarrow> node list \<Rightarrow> error + node list option" where
  "shrink_path lca_path path =
     (if lca_path = [] then Inl IndexError
      else if last lca_path \<in> set path then Inr (Some lca_path)
      else if length lca_path = 1 then Inr None
      else shrink_path (butlast lca_path) path)"
  by pat_completeness auto
termination
  by (relation "measure (\<lambda>(lca_path, path). length lca_path)") auto

fun lca_loop :: "node list \<Rightarrow> node list list \<Rightarrow> error + node list option" where
  "lca_loop lca_path [] = Inr (Some lca_path)"
| "lca_loop lca_path (path # paths) =
     (case shrink_path lca_path path of
        Inl e \<Rightarrow> Inl e
      | Inr None \<Rightarrow> Inr None
      | Inr (Some lca_path') \<Rightarrow> lca_loop lca_path' paths)"

text \<open>
  \<open>get_common_ancestor\<close>. The order in which \<open>list(set(...))\<close> lists the distinct nodes
  is not fixed by the language, so the enumeration is the parameter \<open>list_set\<close>.
  \<open>sorted(..., key=len)\<close> raises \<open>TypeError\<close> when one of the paths is \<open>None\<close>;
  \<open>sort_key\<close> is stable, as \<open>sorted\<close> is.
\<close>

definition get_common_ancestor ::
  "(node option list \<Rightarrow> node option list) \<Rightarrow> Tree \<Rightarrow> string list
     \<Rightarrow> ((error + node option) \<times> Tree) option"
where
  "get_common_ancestor list_set t names =
     (let nodes = list_set (map (node_names t) names) in
      if length nodes = 1 then Some (Inr (nodes ! 0), t)
      else
        (case get_paths t nodes of
           None \<Rightarrow> None
         | Some (got, t') \<Rightarrow>
             (case those got of
                None \<Rightarrow> Some (Inl TypeError, t')
              | Some ps \<Rightarrow>
                  (case sort_key length ps of
                     [] \<Rightarrow> Some (Inl IndexError, t')
                   | lca_path # paths \<Rightarrow>
                       (case lca_loop lca_path paths of
                          Inl e \<Rightarrow> Some (Inl e, t')
                        | Inr None \<Rightarrow> Some (Inr (Some (root t')), t')
                        | Inr (Some lca_path') \<Rightarrow>
                            if lca_path' = [] then Some (Inl IndexError, t')
                            else Some (Inr (Some (last lca_path')), t'))))))"

subsection \<open>Rendering\<close>

type_synonym taxonomy = "(char \<times> string) list"

definition replace_spaces :: "string \<Rightarrow> string" where
  "replace_spaces s = map (\<lambda>c. if c = CHR '' '' then CHR ''_'' else c) s"

text \<open>
  The body of \<open>for clade in self.get_path(node)\<close>. The taxonomy is an ordered
  dictionary: assigning to a key it has keeps the key's place, a new key would go to the
  end.
\<close>

fun taxonomy_loop :: "Tree \<Rightarrow> node list \<Rightarrow> taxonomy \<Rightarrow> ((error + taxonomy) \<times> Tree) option" where
  "taxonomy_loop t [] taxonomy = Some (Inr taxonomy, t)"
| "taxonomy_loop t (clade # rest) taxonomy =
     (case get_depth t (Obj clade) of
        None \<Rightarrow> None
      | Some (Inl e, t') \<Rightarrow> Some (Inl e, t')
      | Some (Inr depth, t') \<Rightarrow>
          if depth > META \<and> depth < SUBSPECIES \<and>
             \<not> depth = SUPERKINGDOM \<and> \<not> depth = KINGDOM
          then
            (case map_of depths depth of
               None \<Rightarrow> Some (Inl KeyError, t')
             | Some rank \<Rightarrow>
                 (let abb = (if hd rank = CHR ''d'' then CHR ''k'' else hd rank) in
                  case name_of t' clade of
                    None \<Rightarrow> Some (Inl AttributeError, t')
                  | Some nm \<Rightarrow>
                      taxonomy_loop t' rest (AList.update abb (replace_spaces nm) taxonomy)))
          else taxonomy_loop t' rest taxonomy)"

definition get_taxonomy :: "Tree \<Rightarrow> node option \<Rightarrow> ((error + taxonomy) \<times> Tree) option" where
  "get_taxonomy t node =
     (let taxonomy = map (\<lambda>i. (i, ''?'')) ''kpcofgs'' in
      case node of
        None \<Rightarrow> Some (Inr taxonomy, t)
      | Some n \<Rightarrow>
          (case get_path t (Some n) of
             None \<Rightarrow> None
           | Some (None, t') \<Rightarrow> Some (Inl TypeError, t')
           | Some (Some path, t') \<Rightarrow> taxonomy_loop t' path taxonomy))"

section \<open>Classifying the BLAST hits\<close>

record OTU =
  name :: string
  sequence :: string
  classification :: "node option"

text \<open>
  The hits of one query, as the class \<open>BlastHits\<close> of \<open>hundo.blast\<close> exposes them. That
  class is not part of the module; its constructor call \<open>BlastHits(top_fraction=...)\<close>
  and its method \<open>add\<close> are the parameters \<open>new_hits\<close> and \<open>add\<close> below.
\<close>

record BlastHits =
  names :: "string list"
  percent_ids :: "rat list"

text \<open>
  One line of the hits file, already split: \<open>qseqid\<close>, \<open>sseqid\<close>, \<open>float(pident)\<close> and
  \<open>bitscore\<close>.
\<close>

type_synonym blast_row = "string \<times> string \<times> rat \<times> rat"

text \<open>
  The first loop fills \<open>hsps\<close>, a \<open>defaultdict\<close> whose keys are in insertion order: a
  line below \<open>min_score\<close> is skipped, any other is added to the entry of its query, which
  is created on first use.
\<close>

fun read_hit :: "BlastHits \<Rightarrow> (BlastHits \<Rightarrow> string \<Rightarrow> rat \<Rightarrow> rat \<Rightarrow> BlastHits) \<Rightarrow> rat
    \<Rightarrow> blast_row \<Rightarrow> (string \<times> BlastHits) list \<Rightarrow> (string \<times> BlastHits) list" where
  "read_hit new_hits add min_score (qseqid, sseqid, pident, bitscore) hsps =
     (if bitscore < min_score then hsps
      else AList.update qseqid
             (add (case map_of hsps qseqid of None \<Rightarrow> new_hits | Some h \<Rightarrow> h)
                  sseqid pident bitscore) hsps)"

text \<open>
  The climbing loop. \<open>lca_node\<close> is \<open>None\<close> when \<open>get_parent\<close> returned \<open>None\<close>, and then
  \<open>lca_node.name\<close> raises; \<open>percent_ids[-1]\<close> raises on an empty list. \<open>threshold\<close> is
  the entry of \<open>assignment_min\<close> for the name of the clade, if the name is a key; the
  name \<open>None\<close> of an unnamed clade never is.
\<close>

definition threshold :: "Tree \<Rightarrow> node \<Rightarrow> rat option" where
  "threshold t n = (case name_of t n of None \<Rightarrow> None | Some nm \<Rightarrow> assignment_min t nm)"

partial_function (option) climb ::
  "Tree \<Rightarrow> BlastHits \<Rightarrow> node option \<Rightarrow> ((error + node) \<times> Tree) option"
where
  "climb t hits lca_node =
     (case lca_node of
        None \<Rightarrow> Some (Inl AttributeError, t)
      | Some n \<Rightarrow>
          (case threshold t n of
             None \<Rightarrow> Some (Inr n, t)
           | Some amin \<Rightarrow>
               if percent_ids hits = [] then Some (Inl IndexError, t)
               else if last (percent_ids hits) < amin \<and> n \<noteq> root t
               then (case get_parent t (Obj n) of (parent, t') \<Rightarrow> climb t' hits parent)
               else Some (Inr n, t)))"

declare climb.simps [code]

text \<open>
  The last statement of the loop body: the value stored in \<open>otu.classification\<close> for
  the climbed node. \<open>get_path\<close> is only called when the filter is on.
\<close>

definition euk_filtered :: "bool \<Rightarrow> Tree \<Rightarrow> node \<Rightarrow> ((error + node option) \<times> Tree) option" where
  "euk_filtered euk_filter t lca_node =
     (if euk_filter then
        (case get_path t (Some lca_node) of
           None \<Rightarrow> None
         | Some (None, t') \<Rightarrow> Some (Inl TypeError, t')
         | Some (Some path, t') \<Rightarrow>
             if length path \<le> 1 then Some (Inl IndexError, t')
             else if name_of t' (path ! 1) = Some ''Eukaryota'' then Some (Inr (no_hits t'), t')
             else Some (Inr (Some lca_node), t'))
      else Some (Inr (Some lca_node), t))"

text \<open>The body of the second loop for one query: the classification it stores.\<close>

definition classify ::
  "(node option list \<Rightarrow> node option list) \<Rightarrow> bool \<Rightarrow> Tree \<Rightarrow> BlastHits
     \<Rightarrow> ((error + node option) \<times> Tree) option"
where
  "classify list_set euk_filter t hits =
     (case get_common_ancestor list_set t (names hits) of
        None \<Rightarrow> None
      | Some (Inl e, t') \<Rightarrow> Some (Inl e, t')
      | Some (Inr None, t') \<Rightarrow> Some (Inr (no_hits t'), t')
      | Some (Inr (Some lca_node), t') \<Rightarrow>
          (case climb t' hits (Some lca_node) of
             None \<Rightarrow> None
           | Some (Inl e, t'') \<Rightarrow> Some (Inl e, t'')
           | Some (Inr lca_node', t'') \<Rightarrow> euk_filtered euk_filter t'' lca_node'))"

text \<open>
  The second loop. The OTU objects are changed in place, so the collection is what the
  caller holds also when an exception ends the loop: the result is the exception
  raised, if any, with the collection and the tree as the call leaves them.
\<close>

fun classify_all ::
  "(node option list \<Rightarrow> node option list) \<Rightarrow> bool \<Rightarrow> (string \<times> BlastHits) list \<Rightarrow> Tree
     \<Rightarrow> (string \<rightharpoonup> OTU) \<Rightarrow> (error option \<times> (string \<rightharpoonup> OTU) \<times> Tree) option"
where
  "classify_all list_set euk_filter [] t otus = Some (None, otus, t)"
| "classify_all list_set euk_filter ((otu_name, hits) # rest) t otus =
     (case otus otu_name of
        None \<Rightarrow> Some (Some KeyError, otus, t)
      | Some otu \<Rightarrow>
          (case classify list_set euk_filter t hits of
             None \<Rightarrow> None
           | Some (Inl e, t') \<Rightarrow> Some (Some e, otus, t')
           | Some (Inr c, t') \<Rightarrow>
               classify_all list_set euk_filter rest t'
                 (otus(otu_name \<mapsto> otu\<lparr>classification := c\<rparr>))))"

definition parse_blasthits ::
  "BlastHits \<Rightarrow> (BlastHits \<Rightarrow> string \<Rightarrow> rat \<Rightarrow> rat \<Rightarrow> BlastHits)
     \<Rightarrow> (node option list \<Rightarrow> node option list)
     \<Rightarrow> blast_row list \<Rightarrow> (string \<rightharpoonup> OTU) \<Rightarrow> Tree \<Rightarrow> rat \<Rightarrow> bool
     \<Rightarrow> (error option \<times> (string \<rightharpoonup> OTU) \<times> Tree) option"
where
  "parse_blasthits new_hits add list_set blasthits otus tre min_score euk_filter =
     (let hsps = fold (read_hit new_hits add min_score) blasthits []
      in classify_all list_set euk_filter hsps tre otus)"

section \<open>Resolved lineages and example trees\<close>

text \<open>
  \<open>lineage t a p\<close>: the clades of \<open>p\<close> are a chain below \<open>a\<close> in the parent table of
  \<open>t\<close>, each the recorded child of the one before, none of them the root. A clade whose
  ancestors' parents all resolve is the last clade of a lineage below the root.
\<close>

fun lineage :: "Tree \<Rightarrow> node \<Rightarrow> node list \<Rightarrow> bool" where
  "lineage t a [] = True"
| "lineage t a (x # xs) = (parents t x = Some (Some a) \<and> x \<noteq> root t \<and> lineage t x xs)"

text \<open>
  A reference tree of eight clades, \<open>n0\<close> the root, and its mapping file: a taxon name
  and a cutoff for six clades, an accession for \<open>n4\<close>, and a row for a clade the tree
  does not have.
\<close>

definition ex_clade :: clade where
  "ex_clade =
     Clade 10 [Clade 11 [Clade 12 [Clade 14 []], Clade 13 [Clade 15 [Clade 16 [Clade 17 []]]]]]"

definition ex_names :: "node \<Rightarrow> string option" where
  "ex_names = (\<lambda>n. None)
     (10 := Some ''n0'', 11 := Some ''n1'', 12 := Some ''n2'', 13 := Some ''n3'',
      14 := Some ''n4'', 15 := Some ''n5'', 16 := Some ''n6'', 17 := Some ''n7'')"

definition ex_rows :: "map_row list" where
  "ex_rows =
     [(''n1'', ''Cellular organisms'', 0), (''n2'', ''Bacteria'', 80),
      (''n3'', ''Eukaryota'', 80), (''n4'', ''AB123456'', 97),
      (''n5'', ''Opisthokonta'', 85), (''n6'', ''Metazoa'', 90),
      (''n7'', ''Candidate division'', 95), (''n9'', ''Missing'', 90)]"

definition ex :: Tree where
  "ex = Tree_init ex_clade ex_names ex_rows"

text \<open>The same tree before any line of the mapping file is read.\<close>

definition ex0 :: Tree where
  "ex0 = Tree_init ex_clade ex_names []"

text \<open>A tree in which the clade right below the root is named Eukaryota.\<close>

definition ex2 :: Tree where
  "ex2 = Tree_init (Clade 10 [Clade 11 [Clade 12 []]])
           ((\<lambda>n. None)(10 := Some ''n0'', 11 := Some ''n1'', 12 := Some ''n2''))
           [(''n1'', ''Eukaryota'', 80), (''n2'', ''Fungi'', 90)]"

text \<open>
  The rendered record as a function of the path. After the first \<open>i\<close> clades of the
  path \<open>p\<close> the slot of depth \<open>d\<close> holds the name of the clade at depth \<open>d\<close>, spaces
  replaced, when that clade is among them, and the placeholder otherwise. Only the
  depths 2 and 5 to 10 have a slot; \<open>named_slots\<close> says that the clades at these
  depths have a name.
\<close>

definition slot :: "Tree \<Rightarrow> node list \<Rightarrow> nat \<Rightarrow> nat \<Rightarrow> string" where
  "slot t p i d =
     (if d \<le> i then (case name_of t (p ! (d - 1)) of Some nm \<Rightarrow> replace_spaces nm | None \<Rightarrow> ''?'')
      else ''?'')"

definition seven_slots :: "Tree \<Rightarrow> node list \<Rightarrow> nat \<Rightarrow> taxonomy" where
  "seven_slots t p i =
     [(CHR ''k'', slot t p i 2), (CHR ''p'', slot t p i 5), (CHR ''c'', slot t p i 6),
      (CHR ''o'', slot t p i 7), (CHR ''f'', slot t p i 8), (CHR ''g'', slot t p i 9),
      (CHR ''s'', slot t p i 10)]"

definition named_slots :: "Tree \<Rightarrow> node list \<Rightarrow> bool" where
  "named_slots t p =
     (\<forall>d \<in> set [2, 5, 6, 7, 8, 9, 10]. d \<le> length p \<longrightarrow> name_of t (p ! (d - 1)) \<noteq> None)"

text \<open>
  The part of the climbing condition that depends on the hits: the clade has a
  threshold and the weakest identity, the last of \<open>percent_ids\<close>, is below it.
\<close>

definition below_threshold :: "Tree \<Rightarrow> BlastHits \<Rightarrow> node \<Rightarrow> bool" where
  "below_threshold t hits n =
     (case threshold t n of None \<Rightarrow> False | Some amin \<Rightarrow> last (percent_ids hits) < amin)"

text \<open>A clade resolves when it is the root or the last clade of a lineage below the root.\<close>

definition resolves :: "Tree \<Rightarrow> node \<Rightarrow> bool" where
  "resolves t n = (\<exists>p. lineage t (root t) p \<and> n = last (root t # p))"

text \<open>Hits on the deepest clade of the example tree, with weakest identities 87 and 50.\<close>

definition ex_hits :: BlastHits where
  "ex_hits = \<lparr>names = [''Candidate division''], percent_ids = [99, 87]\<rparr>"

definition ex_hits_low :: BlastHits where
  "ex_hits_low = \<lparr>names = [''Candidate division''], percent_ids = [50]\<rparr>"

text \<open>
  A stand-in for \<open>BlastHits.add\<close> in the example runs: it keeps every hit, the
  identities in descending order, so that the weakest is last.
\<close>

definition keep_hit :: "BlastHits \<Rightarrow> string \<Rightarrow> rat \<Rightarrow> rat \<Rightarrow> BlastHits" where
  "keep_hit h sseqid pident bitscore =
     \<lparr>names = names h @ [sseqid], percent_ids = rev (sort (pident # percent_ids h))\<rparr>"

text \<open>
  A hits file for two queries: the lines of \<open>otu1\<close> hit Metazoa and the deepest clade,
  the only line of \<open>otu2\<close> is below the minimum score of 155. \<open>ex_hits2\<close> is the entry of
  \<open>otu1\<close> after the first loop, \<open>ex_otus\<close> the collection before the call and \<open>ex_otus'\<close>
  the collection after it.
\<close>

definition ex_blast :: "blast_row list" where
  "ex_blast =
     [(''otu1'', ''Metazoa'', 99, 210), (''otu2'', ''Bacteria'', 99, 100),
      (''otu1'', ''Candidate division'', 87, 208)]"

definition ex_hits2 :: BlastHits where
  "ex_hits2 = \<lparr>names = [''Metazoa'', ''Candidate division''], percent_ids = [99, 87]\<rparr>"

definition ex_otus :: "string \<rightharpoonup> OTU" where
  "ex_otus =
     [''otu1'' \<mapsto> \<lparr>name = ''otu1'', sequence = ''ACGT'', classification = None\<rparr>,
      ''otu2'' \<mapsto> \<lparr>name = ''otu2'', sequence = ''TTGA'', classification = None\<rparr>]"

definition ex_otus' :: "string \<rightharpoonup> OTU" where
  "ex_otus' = ex_otus(''otu1'' \<mapsto> \<lparr>name = ''otu1'', sequence = ''ACGT'', classification = Some 15\<rparr>)"

text \<open>The same chain condition on a bare parent table.\<close>

fun chain :: "(node \<rightharpoonup> node option) \<Rightarrow> node \<Rightarrow> node list \<Rightarrow> bool" where
  "chain m a [] = True"
| "chain m a (x # xs) = (m x = Some (Some a) \<and> chain m x xs)"

section \<open>Facts about the example trees\<close>

lemma ex_root: "root ex = 10"
  by code_simp

lemma ex_parents:
  "parents ex 10 = Some None" "parents ex 11 = Some (Some 10)" "parents ex 12 = Some (Some 11)"
  "parents ex 13 = Some (Some 11)" "parents ex 14 = Some (Some 12)"
  "parents ex 15 = Some (Some 13)" "parents ex 16 = Some (Some 15)"
  "parents ex 17 = Some (Some 16)" "parents ex 18 = Some (Some 10)"
  by code_simp+

lemma ex_name_of:
  "name_of ex 11 = Some ''Cellular organisms''" "name_of ex 12 = Some ''Bacteria''"
  "name_of ex 13 = Some ''Eukaryota''" "name_of ex 14 = Some ''n4''"
  "name_of ex 15 = Some ''Opisthokonta''" "name_of ex 16 = Some ''Metazoa''"
  "name_of ex 17 = Some ''Candidate division''" "name_of ex 18 = Some ''No hits''"
  by code_simp+

lemma ex_node_names:
  "node_names ex ''Bacteria'' = Some 12" "node_names ex ''AB123456'' = Some 14"
  "node_names ex ''Metazoa'' = Some 16" "node_names ex ''Candidate division'' = Some 17"
  "node_names ex ''XY000001'' = None" "node_names ex ''No hits'' = Some 18"
  by code_simp+

lemma ex_assignment_min:
  "assignment_min ex ''Candidate division'' = Some 95" "assignment_min ex ''Metazoa'' = Some 90"
  "assignment_min ex ''Opisthokonta'' = Some 85" "assignment_min ex ''Eukaryota'' = Some 80"
  "assignment_min ex ''Cellular organisms'' = Some 0" "assignment_min ex ''n4'' = None"
  by code_simp+

lemma ex_no_hits: "no_hits ex = Some 18"
  by code_simp

lemma ex2_facts:
  "root ex2 = 10" "parents ex2 11 = Some (Some 10)" "parents ex2 12 = Some (Some 11)"
  "name_of ex2 11 = Some ''Eukaryota''" "name_of ex2 12 = Some ''Fungi''"
  "no_hits ex2 = Some 13"
  by code_simp+

section \<open>Paths\<close>

lemma lineage_snoc:
  "lineage t a (xs @ [x]) =
     (lineage t a xs \<and> parents t x = Some (Some (last (a # xs))) \<and> x \<noteq> root t)"
  by (induction xs arbitrary: a) auto

lemma lineage_append: "lineage t a (xs @ ys) = (lineage t a xs \<and> lineage t (last (a # xs)) ys)"
  by (induction xs arbitrary: a) auto

lemma lineage_not_root: "lineage t a p \<Longrightarrow> root t \<notin> set p"
  by (induction p arbitrary: a) auto

lemma lineage_nth:
  "lineage t a p \<Longrightarrow> Suc i < length p \<Longrightarrow> parents t (p ! Suc i) = Some (Some (p ! i))"
proof (induction p arbitrary: a i)
  case Nil
  then show ?case by simp
next
  case (Cons x xs)
  show ?case
  proof (cases i)
    case 0
    with Cons.prems show ?thesis by (cases xs) auto
  next
    case (Suc j)
    with Cons.prems Cons.IH [of x j] show ?thesis by simp
  qed
qed

lemma get_parent_cached: "parents t n = Some p \<Longrightarrow> get_parent t (Obj n) = (p, t)"
  by (simp add: get_parent_def)

lemma get_path_loop_lineage:
  "lineage t (root t) xs \<Longrightarrow>
   get_path_loop t (Some (last (root t # xs))) ys = Some (Some (root t), xs @ ys, t)"
proof (induction xs arbitrary: ys rule: rev_induct)
  case Nil
  show ?case by (subst get_path_loop.simps) simp
next
  case (snoc x xs)
  from snoc.prems have lin: "lineage t (root t) xs"
    and par: "parents t x = Some (Some (last (root t # xs)))" and nr: "x \<noteq> root t"
    by (simp_all add: lineage_snoc)
  have "get_path_loop t (Some x) ys = get_path_loop t (Some (last (root t # xs))) (x # ys)"
    by (subst get_path_loop.simps) (simp add: nr get_parent_cached [OF par])
  with snoc.IH [OF lin, of "x # ys"] show ?case by simp
qed

lemma get_path_lineage:
  assumes "lineage t (root t) p" and "p \<noteq> []"
  shows "get_path t (Some (last p)) = Some (Some p, t)"
proof -
  from assms(2) obtain xs x where p: "p = xs @ [x]" by (metis rev_exhaust)
  define a where "a = last (root t # xs)"
  from assms(1) have lin: "lineage t (root t) xs"
    and par: "parents t x = Some (Some a)" and nr: "x \<noteq> root t"
    by (simp_all add: p lineage_snoc a_def)
  have loop: "get_path_loop t (Some a) [x] = Some (Some (root t), p, t)"
    unfolding a_def p by (rule get_path_loop_lineage [OF lin])
  have "get_path t (Some x) = Some (Some p, t)"
    by (simp add: get_path_def nr get_parent_cached [OF par] loop)
  then show ?thesis by (simp add: p)
qed

lemma get_path_root: "get_path t (Some (root t)) = Some (Some [root t], t)"
  by (simp add: get_path_def)

lemma get_path_None: "get_path t None = Some (None, t)"
  by (simp add: get_path_def get_parent_def)

lemma ex_lineage: "lineage ex (root ex) [11, 13, 15, 16, 17]"
  by (simp add: ex_root ex_parents)

text \<open>
  C3, as the code has it. \<open>get_path\<close> of the root is the root alone. For any other clade
  whose ancestors' parents all resolve, the call returns, leaves the tree as it was, and
  the path is the chain of ancestors from the child of the root down to the clade
  itself: the root is not on the path, the parent of the first element is the root, the
  last element is the clade, and consecutive elements are parent and child.
\<close>

theorem get_path_chain:
  assumes "lineage t (root t) p" and "p \<noteq> []"
  shows "get_path t (Some (root t)) = Some (Some [root t], t) \<and>
         get_path t (Some (last p)) = Some (Some p, t) \<and>
         root t \<notin> set p \<and>
         fst (get_parent t (Obj (hd p))) = Some (root t) \<and>
         (\<forall>i. Suc i < length p \<longrightarrow> fst (get_parent t (Obj (p ! Suc i))) = Some (p ! i))"
proof -
  from assms have hd: "parents t (hd p) = Some (Some (root t))"
    by (cases p) auto
  show ?thesis
    using assms hd
    by (simp add: get_path_root get_path_lineage lineage_not_root get_parent_cached lineage_nth)
qed

theorem get_path_chain_witness:
  "get_path ex (Some 10) = Some (Some [10], ex) \<and>
   get_path ex (Some 17) = Some (Some [11, 13, 15, 16, 17], ex) \<and>
   10 \<notin> set [11, 13, 15, 16, 17::nat] \<and>
   fst (get_parent ex (Obj 11)) = Some 10 \<and>
   fst (get_parent ex (Obj 16)) = Some 15"
proof -
  note chain = get_path_chain [OF ex_lineage, simplified ex_root]
  from chain have "\<forall>i. Suc i < length [11, 13, 15, 16, 17::nat] \<longrightarrow>
      fst (get_parent ex (Obj ([11, 13, 15, 16, 17] ! Suc i))) = Some ([11, 13, 15, 16, 17] ! i)"
    by simp
  from this [rule_format, of 2] have "fst (get_parent ex (Obj 16)) = Some 15"
    by simp
  with chain show ?thesis by simp
qed

text \<open>
  The path of a clade other than the root does not start with the root: for the clade
  \<open>n7\<close> of the example tree it starts with \<open>n1\<close>, the child of the root \<open>n0\<close>.
\<close>

theorem get_path_first_not_root:
  "get_path ex (Some 17) = Some (Some [11, 13, 15, 16, 17], ex) \<and>
   hd [11, 13, 15, 16, 17] \<noteq> root ex"
  using get_path_lineage [OF ex_lineage] by (simp add: ex_root)

section \<open>Reading the mapping file\<close>

lemma ex0_facts:
  "node_ids ex0 (Some ''n2'') = Some 12" "name_of ex0 12 = Some ''n2''"
  "assignment_min ex0 ''Bacteria'' = None"
  by code_simp+

lemma ex_node_ids: "node_ids ex (Some ''n3'') = Some 13"
  by code_simp

text \<open>
  C4, as the code has it. A row whose node id is a key of the id index always registers
  its name in the name index. The node is renamed and the cutoff recorded exactly when
  the cutoff is not negative and the name matches none of the four accession patterns;
  in every other case (an accession, or a negative cutoff) the names of the clades and
  the table of cutoffs stay as they were.
\<close>

theorem read_map_row_registers:
  assumes "node_ids t (Some node_id) = Some n"
  shows "node_names (read_map_row (node_id, nm, cutoff) t) nm = Some n \<and>
         (if cutoff \<ge> 0 \<and> \<not> is_accession nm
          then name_of (read_map_row (node_id, nm, cutoff) t) n = Some nm \<and>
               assignment_min (read_map_row (node_id, nm, cutoff) t) nm = Some cutoff
          else name_of (read_map_row (node_id, nm, cutoff) t) = name_of t \<and>
               assignment_min (read_map_row (node_id, nm, cutoff) t) = assignment_min t)"
  using assms by (simp add: Let_def)

theorem read_map_row_registers_witness:
  "node_names (read_map_row (''n2'', ''Bacteria'', 80) ex0) ''Bacteria'' = Some 12 \<and>
   name_of (read_map_row (''n2'', ''Bacteria'', 80) ex0) 12 = Some ''Bacteria'' \<and>
   assignment_min (read_map_row (''n2'', ''Bacteria'', 80) ex0) ''Bacteria'' = Some 80 \<and>
   node_names (read_map_row (''n2'', ''AB123456'', 80) ex0) ''AB123456'' = Some 12 \<and>
   name_of (read_map_row (''n2'', ''AB123456'', 80) ex0) = name_of ex0 \<and>
   assignment_min (read_map_row (''n2'', ''AB123456'', 80) ex0) = assignment_min ex0"
  using read_map_row_registers [OF ex0_facts(1), of "''Bacteria''" 80]
        read_map_row_registers [OF ex0_facts(1), of "''AB123456''" 80]
  by (simp add: accession_re_def is_digit_def is_accession_def)

text \<open>
  The name Bacteria is no accession, and its row has a negative cutoff: the clade keeps
  its raw name \<open>n2\<close> and no cutoff is recorded for Bacteria.
\<close>

theorem negative_cutoff_not_renamed:
  "node_ids ex0 (Some ''n2'') = Some 12 \<and> \<not> is_accession ''Bacteria'' \<and>
   name_of (read_map_row (''n2'', ''Bacteria'', - 1) ex0) 12 = Some ''n2'' \<and>
   assignment_min (read_map_row (''n2'', ''Bacteria'', - 1) ex0) ''Bacteria'' = None"
  by code_simp

text \<open>
  C7, as the code has it. \<open>add_node\<close> with a name that is registered returns \<open>None\<close> and
  leaves the tree as it was. A row of the mapping file does not look at the name index
  before it writes: its name is bound to its own node, whatever the name was bound to.
\<close>

theorem duplicate_names:
  "(node_names t nodename \<noteq> None \<longrightarrow> add_node t nodename parent amin = (None, t)) \<and>
   (node_ids t (Some node_id) = Some n \<longrightarrow>
      node_names (read_map_row (node_id, nm, cutoff) t) nm = Some n)"
  by (simp add: add_node_def Let_def)

theorem duplicate_names_witness:
  "node_names ex ''Bacteria'' = Some 12 \<and>
   add_node ex ''Bacteria'' (Obj 10) 0 = (None, ex) \<and>
   node_names (read_map_row (''n3'', ''Bacteria'', 80) ex) ''Bacteria'' = Some 13"
  using duplicate_names [of ex "''Bacteria''" "Obj 10" 0 "''n3''" 13 "''Bacteria''" 80]
  by (simp add: ex_node_names ex_node_ids)

text \<open>
  Two rows with the name Bacteria: after the first the name is bound to \<open>n2\<close>, after the
  second to \<open>n3\<close>. A row named as the sentinel takes the sentinel's name over as well.
\<close>

theorem map_row_rebinds_name:
  "node_names (Tree_init ex_clade ex_names [(''n2'', ''Bacteria'', 80)]) ''Bacteria'' = Some 12 \<and>
   node_names (Tree_init ex_clade ex_names [(''n2'', ''Bacteria'', 80), (''n3'', ''Bacteria'', 80)])
     ''Bacteria'' = Some 13 \<and>
   node_names ex ''No hits'' = Some 18 \<and>
   node_names (read_map_row (''n3'', ''No hits'', 80) ex) ''No hits'' = Some 13"
  by code_simp

section \<open>Depth and rendering\<close>

lemma get_depth_lineage:
  assumes "lineage t (root t) p" and "p \<noteq> []"
  shows "get_depth t (Obj (last p)) = Some (Inr (length p), t)"
proof -
  from assms(1) have "root t \<notin> set p" by (rule lineage_not_root)
  with assms(2) have "p ! 0 \<noteq> root t" by (cases p) auto
  then show ?thesis
    by (simp add: get_depth_def get_path_lineage [OF assms])
qed

lemma get_depth_root: "get_depth t (Obj (root t)) = Some (Inr 0, t)"
  by (simp add: get_depth_def get_path_root)

lemma slot_other: "0 < d \<Longrightarrow> d \<noteq> d' \<Longrightarrow> slot t p d d' = slot t p (d - 1) d'"
  by (auto simp: slot_def)

lemma seven_slots_skip:
  "0 < d \<Longrightarrow> d \<notin> {2, 5, 6, 7, 8, 9, 10} \<Longrightarrow> seven_slots t p d = seven_slots t p (d - 1)"
  by (simp add: seven_slots_def slot_other)

lemma depth_cases:
  assumes "d \<in> {2, 5, 6, 7, 8, 9, 10::nat}"
  obtains "d = 2" | "d = 5" | "d = 6" | "d = 7" | "d = 8" | "d = 9" | "d = 10"
  using assms by auto

lemma taxonomy_step:
  assumes dep: "get_depth t (Obj clade) = Some (Inr d, t)"
    and cl: "clade = p ! (d - 1)" and pos: "0 < d"
    and nm: "d \<in> {2, 5, 6, 7, 8, 9, 10} \<Longrightarrow> name_of t clade \<noteq> None"
  shows "taxonomy_loop t (clade # rest) (seven_slots t p (d - 1)) =
         taxonomy_loop t rest (seven_slots t p d)"
proof (cases "d \<in> {2, 5, 6, 7, 8, 9, 10}")
  case True
  with nm obtain s where s: "name_of t clade = Some s" by auto
  have upd: "taxonomy_loop t (clade # rest) (seven_slots t p (d - 1)) =
      taxonomy_loop t rest
        (AList.update (if hd (the (map_of depths d)) = CHR ''d'' then CHR ''k''
                       else hd (the (map_of depths d)))
           (replace_spaces s) (seven_slots t p (d - 1)))"
    using True
    by (rule depth_cases)
       (simp_all add: dep s META_def SUBSPECIES_def SUPERKINGDOM_def KINGDOM_def depths_def)
  have s': "name_of t (p ! (d - 1)) = Some s"
    using s by (simp add: cl)
  have "AList.update (if hd (the (map_of depths d)) = CHR ''d'' then CHR ''k''
                       else hd (the (map_of depths d)))
           (replace_spaces s) (seven_slots t p (d - 1)) = seven_slots t p d"
    using True
    by (rule depth_cases) (use s' in \<open>simp_all add: seven_slots_def slot_def depths_def\<close>)
  with upd show ?thesis by simp
next
  case False
  then have c: "(d > META \<and> d < SUBSPECIES \<and> \<not> d = SUPERKINGDOM \<and> \<not> d = KINGDOM) = False"
    unfolding META_def SUBSPECIES_def SUPERKINGDOM_def KINGDOM_def by auto
  show ?thesis
    by (simp add: dep seven_slots_skip [OF pos False] c)
qed

lemma taxonomy_loop_lineage:
  assumes "lineage t (root t) (xs @ ys)" and "named_slots t (xs @ ys)"
  shows "taxonomy_loop t ys (seven_slots t (xs @ ys) (length xs)) =
         Some (Inr (seven_slots t (xs @ ys) (length xs + length ys)), t)"
  using assms
proof (induction ys arbitrary: xs)
  case Nil
  then show ?case by simp
next
  case (Cons y ys)
  let ?p = "xs @ y # ys"
  from Cons.prems(1) have "lineage t (root t) (xs @ [y])"
    using lineage_append [of t "root t" "xs @ [y]" ys] by simp
  then have dep: "get_depth t (Obj y) = Some (Inr (Suc (length xs)), t)"
    using get_depth_lineage [of t "xs @ [y]"] by simp
  have nm: "name_of t y \<noteq> None" if "Suc (length xs) \<in> {2, 5, 6, 7, 8, 9, 10}"
  proof -
    from that have "Suc (length xs) \<in> set [2, 5, 6, 7, 8, 9, 10]" by simp
    with Cons.prems(2) have "Suc (length xs) \<le> length ?p \<longrightarrow>
        name_of t (?p ! (Suc (length xs) - 1)) \<noteq> None"
      unfolding named_slots_def by (rule bspec)
    then show ?thesis by simp
  qed
  have "taxonomy_loop t (y # ys) (seven_slots t ?p (Suc (length xs) - 1)) =
        taxonomy_loop t ys (seven_slots t ?p (Suc (length xs)))"
    by (rule taxonomy_step [OF dep _ _ nm]) simp_all
  moreover have "taxonomy_loop t ys (seven_slots t ((xs @ [y]) @ ys) (length (xs @ [y]))) =
      Some (Inr (seven_slots t ((xs @ [y]) @ ys) (length (xs @ [y]) + length ys)), t)"
    using Cons.prems by (intro Cons.IH) simp_all
  ultimately show ?case by simp
qed

lemma seven_slots_0:
  "seven_slots t p 0 = map (\<lambda>i. (i, ''?'')) ''kpcofgs''"
  by (simp add: seven_slots_def slot_def)

lemma get_taxonomy_lineage:
  assumes "lineage t (root t) p" and "p \<noteq> []" and "named_slots t p"
  shows "get_taxonomy t (Some (last p)) = Some (Inr (seven_slots t p (length p)), t)"
  using taxonomy_loop_lineage [of t "[]" p] assms
  by (simp add: get_taxonomy_def get_path_lineage seven_slots_0 del: map_eq_Cons_conv)

lemma get_taxonomy_None:
  "get_taxonomy t None = Some (Inr (map (\<lambda>i. (i, ''?'')) ''kpcofgs''), t)"
  by (simp add: get_taxonomy_def)

lemma get_taxonomy_root:
  "get_taxonomy t (Some (root t)) = Some (Inr (map (\<lambda>i. (i, ''?'')) ''kpcofgs''), t)"
  by (simp add: get_taxonomy_def get_path_root get_depth_root META_def)

lemma ex_named_slots: "named_slots ex [11, 13, 15, 16, 17]"
  by (simp add: named_slots_def ex_name_of)

text \<open>
  C8, as the code has it. For a clade whose ancestors' parents all resolve and whose
  ancestors at the slot depths are named, rendering returns the seven slots k, p, c, o,
  f, g, s in this order. The slot k holds the name of the ancestor at the domain depth
  (2), and p, c, o, f, g, s those at the depths 5 to 10, with spaces replaced by
  underscores; a slot whose depth the path does not reach keeps the placeholder. The
  ancestors at the depths meta, superkingdom and kingdom, and those at strain depth or
  deeper, are written to no slot.
\<close>

theorem get_taxonomy_seven_slots:
  assumes "lineage t (root t) p" and "p \<noteq> []" and "named_slots t p"
  shows "get_taxonomy t (Some (last p)) = Some (Inr (seven_slots t p (length p)), t) \<and>
         map fst (seven_slots t p (length p)) = ''kpcofgs''"
  using get_taxonomy_lineage [OF assms] by (simp add: seven_slots_def)

theorem get_taxonomy_seven_slots_witness:
  "get_taxonomy ex (Some 17) =
     Some (Inr [(CHR ''k'', ''Eukaryota''), (CHR ''p'', ''Candidate_division''),
                (CHR ''c'', ''?''), (CHR ''o'', ''?''), (CHR ''f'', ''?''),
                (CHR ''g'', ''?''), (CHR ''s'', ''?'')], ex)"
  using get_taxonomy_seven_slots [OF ex_lineage _ ex_named_slots]
  by (simp add: seven_slots_def slot_def ex_name_of replace_spaces_def)

lemma ex_lineage_16: "lineage ex (root ex) [11, 13, 15, 16]" and
  ex_lineage_15: "lineage ex (root ex) [11, 13, 15]"
  by (simp_all add: ex_root ex_parents)

lemma ex_named_slots_16: "named_slots ex [11, 13, 15, 16]"
  by (simp add: named_slots_def ex_name_of)

text \<open>
  The clade Metazoa of the example tree is at the kingdom depth and its parent
  Opisthokonta at the superkingdom depth. In the rendering of Metazoa the slot k holds
  Eukaryota, the name at the domain depth; neither Opisthokonta nor Metazoa is in the
  slot k, or in any slot.
\<close>

theorem kingdom_not_in_k_slot:
  "get_depth ex (Obj 15) = Some (Inr SUPERKINGDOM, ex) \<and> name_of ex 15 = Some ''Opisthokonta'' \<and>
   get_depth ex (Obj 16) = Some (Inr KINGDOM, ex) \<and> name_of ex 16 = Some ''Metazoa'' \<and>
   get_taxonomy ex (Some 16) =
     Some (Inr [(CHR ''k'', ''Eukaryota''), (CHR ''p'', ''?''), (CHR ''c'', ''?''),
                (CHR ''o'', ''?''), (CHR ''f'', ''?''), (CHR ''g'', ''?''),
                (CHR ''s'', ''?'')], ex)"
  using get_taxonomy_lineage [OF ex_lineage_16 _ ex_named_slots_16]
    get_depth_lineage [OF ex_lineage_16] get_depth_lineage [OF ex_lineage_15]
  by (simp add: seven_slots_def slot_def ex_name_of replace_spaces_def
      SUPERKINGDOM_def KINGDOM_def)

section \<open>Climbing, the eukaryote filter and the common ancestor\<close>

lemma climb_stop:
  "percent_ids hits \<noteq> [] \<Longrightarrow> \<not> below_threshold t hits n \<or> n = root t \<Longrightarrow>
   climb t hits (Some n) = Some (Inr n, t)"
  by (subst climb.simps) (auto simp: below_threshold_def split: option.splits)

lemma climb_no_threshold: "threshold t n = None \<Longrightarrow> climb t hits (Some n) = Some (Inr n, t)"
  by (subst climb.simps) simp

lemma climb_step:
  "percent_ids hits \<noteq> [] \<Longrightarrow> below_threshold t hits n \<Longrightarrow> n \<noteq> root t \<Longrightarrow>
   parents t n = Some a \<Longrightarrow> climb t hits (Some n) = climb t hits a"
  by (subst climb.simps) (auto simp: below_threshold_def get_parent_cached split: option.splits)

lemma climb_lineage:
  assumes "lineage t (root t) p" and "percent_ids hits \<noteq> []"
  shows "climb t hits (Some (last (root t # p))) =
         Some (Inr (hd (dropWhile (below_threshold t hits) (rev p) @ [root t])), t)"
  using assms(1)
proof (induction p rule: rev_induct)
  case Nil
  show ?case using climb_stop [OF assms(2), of t "root t"] by simp
next
  case (snoc x xs)
  from snoc.prems have lin: "lineage t (root t) xs"
    and par: "parents t x = Some (Some (last (root t # xs)))" and nr: "x \<noteq> root t"
    by (simp_all add: lineage_snoc)
  show ?case
  proof (cases "below_threshold t hits x")
    case True
    from climb_step [OF assms(2) True nr par] snoc.IH [OF lin] True
    show ?thesis by simp
  next
    case False
    with climb_stop [OF assms(2), of t x] show ?thesis by simp
  qed
qed

lemma hd_dropWhile_mem: "hd (dropWhile P xs @ [r]) \<in> set (r # xs)"
proof (cases "dropWhile P xs")
  case Nil
  then have "hd (dropWhile P xs @ [r]) = r" by (simp only: append_Nil list.sel)
  then show ?thesis by simp
next
  case (Cons y ys)
  then have "y \<in> set (dropWhile P xs)" by simp
  then have "y \<in> set xs" by (rule set_dropWhileD)
  with Cons show ?thesis by simp
qed

lemma euk_filtered_lineage:
  assumes "lineage t (root t) p" and "p \<noteq> []"
  shows "euk_filtered True t (last p) =
         Some (if length p \<le> 1 then Inl IndexError
               else if name_of t (p ! 1) = Some ''Eukaryota'' then Inr (no_hits t)
               else Inr (Some (last p)), t)"
  by (simp add: euk_filtered_def get_path_lineage [OF assms])

lemma euk_filtered_root: "euk_filtered True t (root t) = Some (Inl IndexError, t)"
  by (simp add: euk_filtered_def get_path_root)

lemma euk_filtered_off: "euk_filtered False t n = Some (Inr (Some n), t)"
  by (simp add: euk_filtered_def)

lemma those_None: "None \<in> set xs \<Longrightarrow> those xs = None"
  by (induction xs) (auto split: option.splits)

lemma get_path_resolves: "resolves t n \<Longrightarrow> \<exists>path. get_path t (Some n) = Some (Some path, t)"
  unfolding resolves_def
proof (elim exE conjE)
  fix p assume lin: "lineage t (root t) p" and n: "n = last (root t # p)"
  show ?thesis
  proof (cases "p = []")
    case True
    with n show ?thesis by (simp add: get_path_root)
  next
    case False
    with n get_path_lineage [OF lin False] show ?thesis by simp
  qed
qed

lemma get_paths_total:
  assumes "\<forall>n. Some n \<in> set nodes \<longrightarrow> resolves t n"
  shows "\<exists>got. get_paths t nodes = Some (got, t) \<and> (None \<in> set nodes \<longrightarrow> None \<in> set got)"
  using assms
proof (induction nodes)
  case Nil
  then show ?case by simp
next
  case (Cons x xs)
  then obtain got where got: "get_paths t xs = Some (got, t)"
    and mem: "None \<in> set xs \<longrightarrow> None \<in> set got" by auto
  show ?case
  proof (cases x)
    case None
    then show ?thesis by (simp add: get_path_None got)
  next
    case (Some n)
    with Cons.prems have "resolves t n" by simp
    then obtain path where "get_path t (Some n) = Some (Some path, t)"
      using get_path_resolves by blast
    with Some got mem show ?thesis by simp
  qed
qed

lemma lineage_take: "lineage t a p \<Longrightarrow> lineage t a (take k p)"
  using lineage_append [of t a "take k p" "drop k p"] by simp

lemma climb_unfold:
  assumes "percent_ids hits \<noteq> []"
  shows "climb t hits (Some n) =
         (if below_threshold t hits n \<and> n \<noteq> root t
          then climb (snd (get_parent t (Obj n))) hits (fst (get_parent t (Obj n)))
          else Some (Inr n, t))"
  using assms
  by (subst climb.simps) (auto simp: below_threshold_def split: option.splits prod.splits)

text \<open>
  C6. Climbing from the root, or from any clade whose ancestors' parents all resolve,
  with any weakest identity, returns and leaves the tree as it was. Going up from the
  start, the result is the first clade that has no threshold or whose threshold the
  weakest identity meets, and the root when there is none: a clade of the lineage or
  the root, never anything beyond. From the root the result is the root. A start
  without a threshold is returned as it is. One round of the loop replaces the
  candidate by its parent exactly when the candidate has a threshold, the weakest
  identity is below it, and the candidate is not the root.
\<close>

theorem climb_never_past_root:
  assumes "lineage t (root t) p" and "percent_ids hits \<noteq> []"
  shows "climb t hits (Some (last (root t # p))) =
           Some (Inr (hd (dropWhile (below_threshold t hits) (rev p) @ [root t])), t) \<and>
         hd (dropWhile (below_threshold t hits) (rev p) @ [root t]) \<in> set (root t # p) \<and>
         climb t hits (Some (root t)) = Some (Inr (root t), t) \<and>
         (threshold t n = None \<longrightarrow> climb t hits (Some n) = Some (Inr n, t)) \<and>
         climb t hits (Some n) =
           (if below_threshold t hits n \<and> n \<noteq> root t
            then climb (snd (get_parent t (Obj n))) hits (fst (get_parent t (Obj n)))
            else Some (Inr n, t))"
  using climb_lineage [OF assms] hd_dropWhile_mem [of "below_threshold t hits" "rev p" "root t"]
    climb_stop [OF assms(2), of t "root t"] climb_no_threshold [of t n hits]
    climb_unfold [OF assms(2), of t n]
  by simp

lemma ex_below:
  "below_threshold ex ex_hits 17" "below_threshold ex ex_hits 16"
  "\<not> below_threshold ex ex_hits 15"
  by (simp_all add: below_threshold_def threshold_def ex_name_of ex_assignment_min ex_hits_def)

lemma ex_hits_facts: "percent_ids ex_hits \<noteq> []" "threshold ex 14 = None"
  by (simp_all add: ex_hits_def threshold_def ex_name_of ex_assignment_min)

theorem climb_never_past_root_witness:
  "climb ex ex_hits (Some 17) = Some (Inr 15, ex) \<and> 15 \<in> set [10, 11, 13, 15, 16, 17::nat] \<and>
   climb ex ex_hits (Some 10) = Some (Inr 10, ex) \<and>
   climb ex ex_hits (Some 14) = Some (Inr 14, ex)"
  using climb_never_past_root [OF ex_lineage ex_hits_facts(1), where n = 14]
  by (simp add: ex_below ex_root ex_hits_facts)

text \<open>
  C2, as the code has it. With the filter on, and the climbed clade at depth two or
  more, the sentinel is stored exactly when the clade at index 1 of the path is named
  Eukaryota, and the climbed clade otherwise. The path leaves the root out, so index 1
  is the ancestor at the domain depth, two steps below the root. With the filter off
  the climbed clade is stored.
\<close>

theorem euk_filter_second_path_element:
  assumes "lineage t (root t) p" and "2 \<le> length p"
  shows "euk_filtered True t (last p) =
           Some (Inr (if name_of t (p ! 1) = Some ''Eukaryota'' then no_hits t
                      else Some (last p)), t) \<and>
         get_depth t (Obj (p ! 1)) = Some (Inr DOMAIN, t) \<and>
         euk_filtered False t n = Some (Inr (Some n), t)"
proof -
  from assms(2) have ne: "p \<noteq> []" by auto
  have lin2: "lineage t (root t) (take 2 p)" using assms(1) by (rule lineage_take)
  from assms(2) obtain a b r where p: "p = a # b # r"
    by (cases p; cases "tl p") auto
  then have "take 2 p \<noteq> []" and "last (take 2 p) = p ! 1" and "length (take 2 p) = 2"
    by simp_all
  with get_depth_lineage [OF lin2] have "get_depth t (Obj (p ! 1)) = Some (Inr DOMAIN, t)"
    by (simp add: DOMAIN_def)
  with euk_filtered_lineage [OF assms(1) ne] assms(2) show ?thesis
    by (simp add: euk_filtered_off)
qed

theorem euk_filter_second_path_element_witness:
  "euk_filtered True ex 17 = Some (Inr (Some 18), ex) \<and>
   get_depth ex (Obj 13) = Some (Inr 2, ex) \<and>
   euk_filtered False ex 17 = Some (Inr (Some 17), ex)"
  using euk_filter_second_path_element [OF ex_lineage, of 17]
  by (simp add: ex_name_of ex_no_hits DOMAIN_def)

lemma ex2_lineage: "lineage ex2 (root ex2) [11, 12]"
  by (simp add: ex2_facts)

text \<open>
  In the second example tree the clade right below the root is named Eukaryota; its
  child Fungi is stored unchanged by the filter. In the first example tree the clade
  right below the root is named Cellular organisms, and Opisthokonta below it is
  replaced by the sentinel.
\<close>

theorem top_level_eukaryota_not_filtered:
  "parents ex2 11 = Some (Some (root ex2)) \<and> parents ex2 12 = Some (Some 11) \<and>
   name_of ex2 11 = Some ''Eukaryota'' \<and>
   euk_filtered True ex2 12 = Some (Inr (Some 12), ex2) \<and>
   parents ex 11 = Some (Some (root ex)) \<and> parents ex 13 = Some (Some 11) \<and>
   parents ex 15 = Some (Some 13) \<and> name_of ex 11 = Some ''Cellular organisms'' \<and>
   euk_filtered True ex 15 = Some (Inr (no_hits ex), ex)"
  using euk_filtered_lineage [OF ex2_lineage] euk_filtered_lineage [OF ex_lineage_15]
  by (simp add: ex2_facts ex_root ex_parents ex_name_of)

lemma classify_IndexError:
  assumes "get_common_ancestor list_set t (names hits) = Some (Inr (Some l), t)"
    and "climb t hits (Some l) = Some (Inr m, t)"
    and "euk_filtered True t m = Some (Inl IndexError, t)"
  shows "classify list_set True t hits = Some (Inl IndexError, t)"
  using assms by (simp add: classify_def)

text \<open>
  C9. With the filter on, index 1 of the path is read without a check. For the root and
  for a child of the root the path has one element and the read raises \<open>IndexError\<close>;
  for a clade with a resolved lineage the read succeeds exactly when the path has two
  elements or more. So a query whose climbed clade is the root or a child of the root
  ends with \<open>IndexError\<close>.
\<close>

theorem euk_filter_index_guard:
  "euk_filtered True t (root t) = Some (Inl IndexError, t) \<and>
   (parents t n = Some (Some (root t)) \<and> n \<noteq> root t \<longrightarrow>
      euk_filtered True t n = Some (Inl IndexError, t)) \<and>
   (lineage t (root t) p \<and> p \<noteq> [] \<longrightarrow>
      (length p < 2 \<longrightarrow> euk_filtered True t (last p) = Some (Inl IndexError, t)) \<and>
      (2 \<le> length p \<longrightarrow> (\<exists>c. euk_filtered True t (last p) = Some (Inr c, t)))) \<and>
   (get_common_ancestor list_set t (names hits) = Some (Inr (Some l), t) \<and>
    climb t hits (Some l) = Some (Inr m, t) \<and>
    (m = root t \<or> parents t m = Some (Some (root t))) \<longrightarrow>
      classify list_set True t hits = Some (Inl IndexError, t))"
proof -
  have child: "euk_filtered True t c = Some (Inl IndexError, t)"
    if "parents t c = Some (Some (root t))" "c \<noteq> root t" for c
    using euk_filtered_lineage [of t "[c]"] that by simp
  have any: "euk_filtered True t c = Some (Inl IndexError, t)"
    if "c = root t \<or> parents t c = Some (Some (root t))" for c
    using that child [of c] euk_filtered_root [of t] by (cases "c = root t") auto
  have path: "(length p < 2 \<longrightarrow> euk_filtered True t (last p) = Some (Inl IndexError, t)) \<and>
      (2 \<le> length p \<longrightarrow> (\<exists>c. euk_filtered True t (last p) = Some (Inr c, t)))"
    if "lineage t (root t) p" "p \<noteq> []"
    using euk_filtered_lineage [OF that] by auto
  show ?thesis
    using child [of n] path any [of m] classify_IndexError [of list_set t hits l m]
    by (auto simp: euk_filtered_root)
qed

lemma ex_below_low:
  "below_threshold ex ex_hits_low 17" "below_threshold ex ex_hits_low 16"
  "below_threshold ex ex_hits_low 15" "below_threshold ex ex_hits_low 13"
  "\<not> below_threshold ex ex_hits_low 11"
  by (simp_all add: below_threshold_def threshold_def ex_name_of ex_assignment_min ex_hits_low_def)

lemma ex_low_lca:
  "get_common_ancestor remdups ex (names ex_hits_low) = Some (Inr (Some 17), ex)"
  by (simp add: get_common_ancestor_def ex_hits_low_def ex_node_names)

lemma ex_low_climb: "climb ex ex_hits_low (Some 17) = Some (Inr 11, ex)"
  using climb_lineage [OF ex_lineage, of ex_hits_low]
  by (simp add: ex_below_low) (simp add: ex_hits_low_def)

theorem euk_filter_index_guard_witness:
  "euk_filtered True ex 10 = Some (Inl IndexError, ex) \<and>
   euk_filtered True ex 11 = Some (Inl IndexError, ex) \<and>
   (\<exists>c. euk_filtered True ex 17 = Some (Inr c, ex)) \<and>
   classify remdups True ex ex_hits_low = Some (Inl IndexError, ex)"
  using euk_filter_index_guard [where t = ex and n = 11 and p = "[11, 13, 15, 16, 17]"
      and list_set = remdups and hits = ex_hits_low and l = 17 and m = 11]
    ex_lineage
  by (simp add: ex_root ex_parents ex_low_lca ex_low_climb)

section \<open>The classification loop\<close>

lemma classify_all_frame:
  "classify_all list_set euk_filter hsps t otus = Some (err, otus', t') \<Longrightarrow>
   dom otus' = dom otus \<and>
   (\<forall>k u. otus k = Some u \<longrightarrow>
      (\<exists>u'. otus' k = Some u' \<and> name u' = name u \<and> sequence u' = sequence u)) \<and>
   (\<forall>k. k \<notin> fst ` set hsps \<longrightarrow> otus' k = otus k)"
proof (induction hsps arbitrary: t otus)
  case Nil
  then show ?case by simp
next
  case (Cons kv rest)
  obtain q hits where kv: "kv = (q, hits)" by (cases kv)
  show ?case
  proof (cases "otus q")
    case None
    with Cons.prems kv show ?thesis by simp
  next
    case (Some otu)
    show ?thesis
    proof (cases "classify list_set euk_filter t hits")
      case None
      with Cons.prems kv Some show ?thesis by simp
    next
      case (Some r)
      obtain res t1 where r: "r = (res, t1)" by (cases r)
      show ?thesis
      proof (cases res)
        case (Inl e)
        with Cons.prems kv \<open>otus q = Some otu\<close> Some r show ?thesis by simp
      next
        case (Inr c)
        let ?otus1 = "otus(q \<mapsto> otu\<lparr>classification := c\<rparr>)"
        from Cons.prems kv \<open>otus q = Some otu\<close> Some r Inr
        have "classify_all list_set euk_filter rest t1 ?otus1 = Some (err, otus', t')"
          by simp
        from Cons.IH [OF this] have
          d: "dom otus' = dom ?otus1" and
          f: "\<And>k u. ?otus1 k = Some u \<Longrightarrow>
                \<exists>u'. otus' k = Some u' \<and> name u' = name u \<and> sequence u' = sequence u" and
          u: "\<And>k. k \<notin> fst ` set rest \<Longrightarrow> otus' k = ?otus1 k"
          by blast+
        have "dom otus' = dom otus" using d \<open>otus q = Some otu\<close> by auto
        moreover have "\<exists>u'. otus' k = Some u' \<and> name u' = name u \<and> sequence u' = sequence u"
          if "otus k = Some u" for k u
        proof (cases "k = q")
          case True
          with that \<open>otus q = Some otu\<close> f [of q "otu\<lparr>classification := c\<rparr>"] show ?thesis by simp
        next
          case False
          with that f [of k u] show ?thesis by simp
        qed
        moreover have "otus' k = otus k" if "k \<notin> fst ` set (kv # rest)" for k
          using that u [of k] kv by simp
        ultimately show ?thesis by blast
      qed
    qed
  qed
qed

lemma read_hit_keys:
  "fst ` set (read_hit new_hits add min_score row hsps) \<subseteq> insert (fst row) (fst ` set hsps)"
  by (cases row) (auto simp: dom_update)

lemma read_hit_skip:
  "snd (snd (snd row)) < min_score \<Longrightarrow> read_hit new_hits add min_score row hsps = hsps"
  by (cases row) simp

lemma fold_read_hit_keys:
  assumes "\<forall>row \<in> set rows. fst row = q \<longrightarrow> snd (snd (snd row)) < min_score"
    and "q \<notin> fst ` set hsps"
  shows "q \<notin> fst ` set (fold (read_hit new_hits add min_score) rows hsps)"
  using assms
proof (induction rows arbitrary: hsps)
  case Nil
  then show ?case by simp
next
  case (Cons row rows)
  have "q \<notin> fst ` set (read_hit new_hits add min_score row hsps)"
  proof (cases "fst row = q")
    case True
    with Cons.prems show ?thesis by (simp add: read_hit_skip)
  next
    case False
    with Cons.prems(2) read_hit_keys [of new_hits add min_score row hsps] show ?thesis by auto
  qed
  with Cons.IH [of "read_hit new_hits add min_score row hsps"] Cons.prems(1) show ?case by simp
qed

lemma fold_read_hit_all_skipped:
  "\<forall>row \<in> set rows. snd (snd (snd row)) < min_score \<Longrightarrow>
   fold (read_hit new_hits add min_score) rows hsps = hsps"
  by (induction rows arbitrary: hsps) (simp_all add: read_hit_skip)

lemma get_taxonomy_child:
  assumes "parents t n = Some (Some (root t))" and "n \<noteq> root t"
  shows "get_taxonomy t (Some n) = Some (Inr (map (\<lambda>i. (i, ''?'')) ''kpcofgs''), t)"
proof -
  have "lineage t (root t) [n]" using assms by simp
  moreover have "named_slots t [n]" by (simp add: named_slots_def)
  ultimately have "get_taxonomy t (Some (last [n])) = Some (Inr (seven_slots t [n] (length [n])), t)"
    by (intro get_taxonomy_lineage) simp_all
  then show ?thesis by (simp add: seven_slots_def slot_def)
qed

lemma ex_hsps:
  "fold (read_hit \<lparr>names = [], percent_ids = []\<rparr> keep_hit 155) ex_blast [] = [(''otu1'', ex_hits2)]"
  by (simp add: ex_blast_def keep_hit_def ex_hits2_def)

lemma ex_paths:
  "get_path ex (Some 16) = Some (Some [11, 13, 15, 16], ex)"
  "get_path ex (Some 17) = Some (Some [11, 13, 15, 16, 17], ex)"
  using get_path_lineage [OF ex_lineage_16] get_path_lineage [OF ex_lineage] by simp_all

lemma ex_lca2: "get_common_ancestor remdups ex (names ex_hits2) = Some (Inr (Some 16), ex)"
  by (simp add: get_common_ancestor_def ex_hits2_def ex_node_names ex_paths)

lemma ex_below2: "below_threshold ex ex_hits2 16" "\<not> below_threshold ex ex_hits2 15"
  by (simp_all add: below_threshold_def threshold_def ex_name_of ex_assignment_min ex_hits2_def)

lemma ex_climb2: "climb ex ex_hits2 (Some 16) = Some (Inr 15, ex)"
  using climb_lineage [OF ex_lineage_16, of ex_hits2]
  by (simp add: ex_below2) (simp add: ex_hits2_def)

lemma ex_classify2: "classify remdups False ex ex_hits2 = Some (Inr (Some 15), ex)"
  by (simp add: classify_def ex_lca2 ex_climb2 euk_filtered_off)

lemma ex_run:
  "parse_blasthits \<lparr>names = [], percent_ids = []\<rparr> keep_hit remdups ex_blast ex_otus ex 155 False =
     Some (None, ex_otus', ex)"
  by (simp add: parse_blasthits_def ex_hsps ex_classify2 ex_otus_def ex_otus'_def)

text \<open>
  C10. Whenever \<open>parse_blasthits\<close> ends, with or without an exception, the collection
  has the keys it had, and every OTU has the name and the sequence it had: only the
  classification field is written.
\<close>

theorem parse_blasthits_frame:
  assumes "parse_blasthits new_hits add list_set blasthits otus tre min_score euk_filter =
             Some (err, otus', tre')"
  shows "dom otus' = dom otus \<and>
         (\<forall>k u. otus k = Some u \<longrightarrow>
            (\<exists>u'. otus' k = Some u' \<and> name u' = name u \<and> sequence u' = sequence u))"
  using assms classify_all_frame unfolding parse_blasthits_def Let_def by blast

theorem parse_blasthits_frame_witness:
  "dom ex_otus' = dom ex_otus \<and>
   (\<exists>u'. ex_otus' ''otu1'' = Some u' \<and> name u' = ''otu1'' \<and> sequence u' = ''ACGT'') \<and>
   (\<exists>u'. ex_otus' ''otu2'' = Some u' \<and> name u' = ''otu2'' \<and> sequence u' = ''TTGA'')"
proof -
  note frame = parse_blasthits_frame [OF ex_run]
  have o1: "ex_otus ''otu1'' = Some \<lparr>name = ''otu1'', sequence = ''ACGT'', classification = None\<rparr>"
    and o2: "ex_otus ''otu2'' = Some \<lparr>name = ''otu2'', sequence = ''TTGA'', classification = None\<rparr>"
    by (simp_all add: ex_otus_def)
  from frame have same: "\<And>k u. ex_otus k = Some u \<Longrightarrow>
      \<exists>u'. ex_otus' k = Some u' \<and> name u' = name u \<and> sequence u' = sequence u"
    by blast
  from frame same [OF o1] same [OF o2] show ?thesis by simp
qed

text \<open>
  C5, as the code has it. A query all of whose lines are below the minimum score gets no
  entry in \<open>hsps\<close>, and the second loop leaves its OTU as it was: the classification
  stays what it was before the call (unset for a new OTU), it is not set to the
  sentinel. When every line of the file is below the minimum score the call returns
  and changes nothing. Rendering an unset classification gives the placeholder in all
  seven slots, and so does rendering a child of the root, as the sentinel is.
\<close>

theorem no_hits_query_unclassified:
  assumes "\<forall>row \<in> set blasthits. fst row = q \<longrightarrow> snd (snd (snd row)) < min_score"
    and "parse_blasthits new_hits add list_set blasthits otus tre min_score euk_filter =
           Some (err, otus', tre')"
  shows "q \<notin> fst ` set (fold (read_hit new_hits add min_score) blasthits []) \<and>
         otus' q = otus q \<and>
         get_taxonomy t None = Some (Inr (map (\<lambda>i. (i, ''?'')) ''kpcofgs''), t) \<and>
         (parents t n = Some (Some (root t)) \<and> n \<noteq> root t \<longrightarrow>
            get_taxonomy t (Some n) = Some (Inr (map (\<lambda>i. (i, ''?'')) ''kpcofgs''), t)) \<and>
         ((\<forall>row \<in> set blasthits. snd (snd (snd row)) < min_score) \<longrightarrow>
            err = None \<and> otus' = otus \<and> tre' = tre)"
proof -
  have keys: "q \<notin> fst ` set (fold (read_hit new_hits add min_score) blasthits [])"
    using assms(1) by (intro fold_read_hit_keys) simp_all
  from assms(2) have run: "classify_all list_set euk_filter
      (fold (read_hit new_hits add min_score) blasthits []) tre otus = Some (err, otus', tre')"
    by (simp add: parse_blasthits_def)
  from classify_all_frame [OF run] keys have same: "otus' q = otus q" by blast
  have "err = None \<and> otus' = otus \<and> tre' = tre"
    if "\<forall>row \<in> set blasthits. snd (snd (snd row)) < min_score"
    using run by (simp add: fold_read_hit_all_skipped [OF that])
  with keys same show ?thesis
    by (simp add: get_taxonomy_None get_taxonomy_child)
qed

lemma ex_run_skipped:
  "parse_blasthits \<lparr>names = [], percent_ids = []\<rparr> keep_hit remdups
     [(''otu2'', ''Bacteria'', 99, 100)] ex_otus ex 155 False = Some (None, ex_otus, ex)"
  by (simp add: parse_blasthits_def)

theorem no_hits_query_unclassified_witness:
  "ex_otus' ''otu2'' = ex_otus ''otu2'' \<and>
   get_taxonomy ex None = Some (Inr (map (\<lambda>i. (i, ''?'')) ''kpcofgs''), ex) \<and>
   get_taxonomy ex (Some 18) = Some (Inr (map (\<lambda>i. (i, ''?'')) ''kpcofgs''), ex) \<and>
   ''otu2'' \<notin> fst ` set (fold (read_hit \<lparr>names = [], percent_ids = []\<rparr> keep_hit 155)
                           [(''otu2'', ''Bacteria'', 99, 100)] [])"
  using no_hits_query_unclassified [OF _ ex_run, where q = "''otu2''" and t = ex and n = 18]
    no_hits_query_unclassified [OF _ ex_run_skipped, where q = "''otu2''" and t = ex and n = 18]
  by (simp add: ex_blast_def ex_parents ex_root)

text \<open>
  In the example run the only line of \<open>otu2\<close> is below the minimum score. After the call
  the classification of \<open>otu2\<close> is unset; the sentinel is the clade 18. A hit set without
  names, were one handed to the second loop, would end the call with \<open>IndexError\<close>.
\<close>

theorem unhit_query_not_sentinel:
  "parse_blasthits \<lparr>names = [], percent_ids = []\<rparr> keep_hit remdups ex_blast ex_otus ex 155 False =
     Some (None, ex_otus', ex) \<and>
   map_option classification (ex_otus' ''otu2'') = Some None \<and> no_hits ex = Some 18 \<and>
   classify remdups False ex \<lparr>names = [], percent_ids = []\<rparr> = Some (Inl IndexError, ex)"
  using ex_run
  by (simp add: ex_otus'_def ex_otus_def ex_no_hits classify_def get_common_ancestor_def)

section \<open>The trees that the constructor builds\<close>

text \<open>
  Every tree that \<open>Tree.__init__\<close> builds from a tree of distinct clade objects has a
  complete parent table: each of its clades, the sentinel among them, is the root or
  the end of a lineage below the root, and every name of the name index is bound to
  one of its clades. So the lineages that the theorems above ask for exist for every
  clade that a query can resolve to.
\<close>

lemma lineage_chain: "lineage t a p = (chain (parents t) a p \<and> root t \<notin> set p)"
  by (induction p arbitrary: a) auto

lemma chain_cong: "(\<And>x. x \<in> set p \<Longrightarrow> m x = m' x) \<Longrightarrow> chain m a p = chain m' a p"
  by (induction p arbitrary: a) auto

lemma ident_in_idents: "ident c \<in> set (idents c)"
  by (cases c) simp

lemma fold_frame:
  assumes "\<And>c par acc. c \<in> set cs \<Longrightarrow> n \<notin> set (idents c) \<Longrightarrow>
             snd (get_all_children c par acc) n = snd acc n"
    and "n \<notin> set (concat (map idents cs))"
  shows "snd (fold (\<lambda>c. get_all_children c q) cs acc) n = snd acc n"
  using assms by (induction cs arbitrary: acc) auto

lemma gac_frame:
  "n \<notin> set (idents c) \<Longrightarrow> snd (get_all_children c par acc) n = snd acc n"
proof (induction c arbitrary: par acc)
  case (Clade r cs)
  have "snd (fold (\<lambda>c. get_all_children c (Some r)) cs acc) n = snd acc n"
    using Clade.prems by (intro fold_frame Clade.IH) auto
  with Clade.prems show ?case by (simp add: split_beta)
qed

lemma gac_root: "snd (get_all_children c par acc) (ident c) = Some par"
  by (cases c) (simp add: split_beta)

lemma fold_frame_gac:
  "n \<notin> set (concat (map idents cs)) \<Longrightarrow>
   snd (fold (\<lambda>c. get_all_children c q) cs acc) n = snd acc n"
  by (rule fold_frame) (auto simp: gac_frame)

lemma fold_chain:
  assumes IH: "\<And>d par acc n. d \<in> set cs \<Longrightarrow> distinct (idents d) \<Longrightarrow> n \<in> set (idents d) \<Longrightarrow>
      \<exists>p. chain (snd (get_all_children d par acc)) (ident d) p \<and> last (ident d # p) = n \<and>
          set p \<subseteq> set (idents d) - {ident d}"
    and dist: "distinct (concat (map idents cs))"
    and d: "d \<in> set cs" and n: "n \<in> set (idents d)"
  shows "\<exists>p. chain (snd (fold (\<lambda>c. get_all_children c q) cs acc)) (ident d) p \<and>
            last (ident d # p) = n \<and> set p \<subseteq> set (idents d) - {ident d} \<and>
            snd (fold (\<lambda>c. get_all_children c q) cs acc) (ident d) = Some q"
  using IH dist d
proof (induction cs arbitrary: acc)
  case Nil
  then show ?case by simp
next
  case (Cons c rest)
  let ?acc1 = "get_all_children c q acc"
  let ?f = "\<lambda>c. get_all_children c q"
  from Cons.prems(2) have dc: "distinct (idents c)" and dr: "distinct (concat (map idents rest))"
    and disj: "set (idents c) \<inter> set (concat (map idents rest)) = {}"
    by simp_all
  show ?case
  proof (cases "d \<in> set rest")
    case True
    have "\<exists>p. chain (snd (fold ?f rest ?acc1)) (ident d) p \<and> last (ident d # p) = n \<and>
            set p \<subseteq> set (idents d) - {ident d} \<and> snd (fold ?f rest ?acc1) (ident d) = Some q"
      using Cons.prems(1) dr True by (intro Cons.IH) auto
    then show ?thesis by simp
  next
    case False
    with Cons.prems(3) have dc_eq: "d = c" by simp
    have "\<exists>p. chain (snd ?acc1) (ident c) p \<and> last (ident c # p) = n \<and>
        set p \<subseteq> set (idents c) - {ident c}"
      using dc n dc_eq by (intro Cons.prems(1)) auto
    then obtain p where
      p: "chain (snd ?acc1) (ident c) p" "last (ident c # p) = n"
         "set p \<subseteq> set (idents c) - {ident c}"
      by blast
    have same: "snd (fold ?f rest ?acc1) x = snd ?acc1 x" if "x \<in> set (idents c)" for x
      using that disj by (intro fold_frame_gac) auto
    have "chain (snd (fold ?f rest ?acc1)) (ident c) p = chain (snd ?acc1) (ident c) p"
      using p(3) by (intro chain_cong same) auto
    moreover have "snd (fold ?f rest ?acc1) (ident c) = Some q"
      using same [OF ident_in_idents] by (simp add: gac_root)
    ultimately show ?thesis using p dc_eq by auto
  qed
qed

lemma gac_chain:
  "distinct (idents c) \<Longrightarrow> n \<in> set (idents c) \<Longrightarrow>
   \<exists>p. chain (snd (get_all_children c par acc)) (ident c) p \<and> last (ident c # p) = n \<and>
       set p \<subseteq> set (idents c) - {ident c}"
proof (induction c arbitrary: par acc n)
  case (Clade r cs)
  let ?m1 = "snd (fold (\<lambda>c. get_all_children c (Some r)) cs acc)"
  have m': "snd (get_all_children (Clade r cs) par acc) = ?m1(r \<mapsto> par)"
    by (simp add: split_beta)
  from Clade.prems(1) have dist: "distinct (concat (map idents cs))"
    and r: "r \<notin> set (concat (map idents cs))" by simp_all
  show ?case
  proof (cases "n = r")
    case True
    then show ?thesis by (intro exI [of _ "[]"]) simp
  next
    case False
    with Clade.prems(2) obtain d where d: "d \<in> set cs" and nd: "n \<in> set (idents d)" by auto
    have "\<exists>p. chain ?m1 (ident d) p \<and> last (ident d # p) = n \<and>
            set p \<subseteq> set (idents d) - {ident d} \<and> ?m1 (ident d) = Some (Some r)"
      using dist d nd by (intro fold_chain Clade.IH) auto
    then obtain p where p: "chain ?m1 (ident d) p" "last (ident d # p) = n"
      "set p \<subseteq> set (idents d) - {ident d}" "?m1 (ident d) = Some (Some r)" by blast
    from d r have sub: "r \<notin> set (idents d)" by auto
    with ident_in_idents [of d] have dr: "ident d \<noteq> r" by auto
    from sub p(3) have rp: "r \<notin> set p" by auto
    have "chain (?m1(r \<mapsto> par)) (ident d) p = chain ?m1 (ident d) p"
      using rp by (intro chain_cong) auto
    with p dr have "chain (?m1(r \<mapsto> par)) r (ident d # p)" by simp
    moreover have "last (r # ident d # p) = n" using p(2) by simp
    moreover have "set (ident d # p) \<subseteq> set (idents (Clade r cs)) - {r}"
      using p(3) d dr rp ident_in_idents [of d] by auto
    ultimately show ?thesis unfolding m' clade.sel by blast
  qed
qed

lemma append_clade_absent: "p \<notin> set (idents c) \<Longrightarrow> append_clade p new c = c"
proof (induction c)
  case (Clade n cs)
  then have "map (append_clade p new) cs = cs"
    by (intro map_idI) auto
  with Clade.prems show ?case by simp
qed

lemma append_clade_root:
  "distinct (idents tr) \<Longrightarrow> append_clade (ident tr) new tr = Clade (ident tr) (clades tr @ [Clade new []])"
proof (cases tr)
  case (Clade r cs)
  assume "distinct (idents tr)"
  with Clade have "r \<notin> set (concat (map idents cs))" by simp
  then have "map (append_clade r new) cs = cs"
    by (intro map_idI append_clade_absent) auto
  with Clade show ?thesis by simp
qed

lemma fold_max_ge: "x \<in> set xs \<Longrightarrow> x \<le> fold max xs (a::nat)"
proof (induction xs arbitrary: a)
  case Nil
  then show ?case by simp
next
  case (Cons y ys)
  have mono: "a \<le> fold max ys a" for a :: nat
    by (induction ys arbitrary: a) (auto intro: order_trans [OF max.cobounded2])
  from Cons show ?case
    by (auto intro: order_trans [OF max.cobounded1 mono])
qed

lemma fresh_node_new: "fresh_node tr \<notin> set (idents tr)"
  using fold_max_ge [of "fresh_node tr" "idents tr" 0] by (auto simp: fresh_node_def)

lemma read_map_row_fields:
  "tree (read_map_row row t) = tree t" "parents (read_map_row row t) = parents t"
  "no_hits (read_map_row row t) = no_hits t" "node_ids (read_map_row row t) = node_ids t"
  by (cases row; simp add: Let_def split: option.splits)+

lemma fold_read_map_row_fields:
  "tree (fold read_map_row rows t) = tree t" "parents (fold read_map_row rows t) = parents t"
  "no_hits (fold read_map_row rows t) = no_hits t"
  "node_ids (fold read_map_row rows t) = node_ids t"
  by (induction rows arbitrary: t) (simp_all add: read_map_row_fields)

lemma Tree_init_fields:
  "tree (Tree_init tr nm rows) = append_clade (ident tr) (fresh_node tr) tr"
  "parents (Tree_init tr nm rows) =
     snd (get_all_children (append_clade (ident tr) (fresh_node tr) tr) None
            ([], [fresh_node tr \<mapsto> Some (ident tr)]))"
  "no_hits (Tree_init tr nm rows) = Some (fresh_node tr)"
  by (simp_all add: Tree_init_def Let_def split_beta add_node_def root_def
      fold_read_map_row_fields)

lemma Tree_init_root: "distinct (idents tr) \<Longrightarrow> root (Tree_init tr nm rows) = ident tr"
  by (simp add: root_def Tree_init_fields append_clade_root)

lemma Tree_init_idents:
  assumes "distinct (idents tr)"
  shows "distinct (idents (tree (Tree_init tr nm rows)))"
    and "set (idents (tree (Tree_init tr nm rows))) = insert (fresh_node tr) (set (idents tr))"
proof -
  obtain r cs where tr: "tr = Clade r cs" by (cases tr)
  have t: "tree (Tree_init tr nm rows) = Clade r (cs @ [Clade (fresh_node tr) []])"
    using append_clade_root [OF assms] by (simp add: Tree_init_fields tr)
  from fresh_node_new [of tr] assms
  show "distinct (idents (tree (Tree_init tr nm rows)))"
    and "set (idents (tree (Tree_init tr nm rows))) = insert (fresh_node tr) (set (idents tr))"
    unfolding t by (auto simp: tr)
qed

lemma Tree_init_resolves:
  assumes "distinct (idents tr)" and "n \<in> set (idents (tree (Tree_init tr nm rows)))"
  shows "resolves (Tree_init tr nm rows) n"
proof -
  let ?T = "Tree_init tr nm rows"
  have par: "parents ?T = snd (get_all_children (tree ?T) None ([], [fresh_node tr \<mapsto> Some (ident tr)]))"
    by (simp add: Tree_init_fields)
  from gac_chain [OF Tree_init_idents(1) [OF assms(1)] assms(2)]
  obtain p where "chain (parents ?T) (ident (tree ?T)) p" "last (ident (tree ?T) # p) = n"
    "set p \<subseteq> set (idents (tree ?T)) - {ident (tree ?T)}"
    unfolding par by blast
  then have "lineage ?T (root ?T) p \<and> n = last (root ?T # p)"
    by (auto simp: lineage_chain root_def)
  then show ?thesis unfolding resolves_def by blast
qed

lemma gac_children:
  "set (fst (get_all_children c par acc)) = set (fst acc) \<union> set (idents c)"
proof (induction c arbitrary: par acc)
  case (Clade r cs)
  have "set (fst (fold (\<lambda>c. get_all_children c q) cs acc)) =
        set (fst acc) \<union> set (concat (map idents cs))" for q acc
    using Clade.IH by (induction cs arbitrary: acc) auto
  then show ?case by (auto simp: split_beta)
qed

lemma fold_node_ids:
  "fold (\<lambda>child ids. ids(f child \<mapsto> child)) children m k = Some n \<Longrightarrow>
   n \<in> set children \<or> m k = Some n"
proof (induction children arbitrary: m)
  case Nil
  then show ?case by simp
next
  case (Cons c children)
  from Cons.prems have "fold (\<lambda>child ids. ids(f child \<mapsto> child)) children (m(f c \<mapsto> c)) k = Some n"
    by (simp only: fold_simps)
  from Cons.IH [OF this] show ?case by (auto split: if_splits)
qed

lemma read_map_row_names:
  assumes "\<And>k n. node_ids t k = Some n \<Longrightarrow> n \<in> S"
    and "\<And>k n. node_names t k = Some n \<Longrightarrow> n \<in> S"
    and "node_names (read_map_row row t) k = Some n"
  shows "n \<in> S"
  using assms by (cases row) (auto simp: Let_def split: option.splits if_splits)

lemma fold_read_map_row_names:
  assumes "\<And>k n. node_ids t k = Some n \<Longrightarrow> n \<in> S"
    and "\<And>k n. node_names t k = Some n \<Longrightarrow> n \<in> S"
    and "node_names (fold read_map_row rows t) k = Some n"
  shows "n \<in> S"
  using assms
proof (induction rows arbitrary: t)
  case Nil
  then show ?case by simp
next
  case (Cons row rows)
  show ?case
  proof (rule Cons.IH [of "read_map_row row t"])
    show "\<And>k n. node_ids (read_map_row row t) k = Some n \<Longrightarrow> n \<in> S"
      using Cons.prems(1) by (simp add: read_map_row_fields)
    show "\<And>k n. node_names (read_map_row row t) k = Some n \<Longrightarrow> n \<in> S"
      using Cons.prems(1,2) by (rule read_map_row_names)
    show "node_names (fold read_map_row rows (read_map_row row t)) k = Some n"
      using Cons.prems(3) by simp
  qed
qed

lemma Tree_init_before_rows:
  assumes "distinct (idents tr)"
  shows "\<exists>t4. Tree_init tr nm rows = fold read_map_row rows t4 \<and>
           (\<forall>k n. node_ids t4 k = Some n \<longrightarrow> n \<in> insert (fresh_node tr) (set (idents tr))) \<and>
           (\<forall>k n. node_names t4 k = Some n \<longrightarrow> n \<in> insert (fresh_node tr) (set (idents tr)))"
proof -
  let ?tr' = "append_clade (ident tr) (fresh_node tr) tr"
  have S: "set (idents ?tr') = insert (fresh_node tr) (set (idents tr))"
    using Tree_init_idents(2) [OF assms] by (simp add: Tree_init_fields)
  show ?thesis
    unfolding Tree_init_def Let_def split_beta
    by (intro exI conjI, rule refl)
       (auto simp: add_node_def root_def Let_def gac_children S
             dest!: fold_node_ids split: if_splits)
qed

lemma Tree_init_names:
  assumes "distinct (idents tr)" and "node_names (Tree_init tr nm rows) k = Some n"
  shows "n \<in> set (idents (tree (Tree_init tr nm rows)))"
proof -
  from Tree_init_before_rows [OF assms(1), of nm rows] obtain t4 where
    eq: "Tree_init tr nm rows = fold read_map_row rows t4"
    and ids: "\<And>k n. node_ids t4 k = Some n \<Longrightarrow> n \<in> insert (fresh_node tr) (set (idents tr))"
    and nms: "\<And>k n. node_names t4 k = Some n \<Longrightarrow> n \<in> insert (fresh_node tr) (set (idents tr))"
    by blast
  from assms(2) have "node_names (fold read_map_row rows t4) k = Some n" by (simp add: eq)
  with ids nms have "n \<in> insert (fresh_node tr) (set (idents tr))"
    by (rule fold_read_map_row_names)
  then show ?thesis by (simp add: Tree_init_idents(2) [OF assms(1)])
qed

lemma Tree_init_names_resolve:
  assumes "distinct (idents tr)" and "node_names (Tree_init tr nm rows) k = Some n"
  shows "resolves (Tree_init tr nm rows) n"
  using Tree_init_resolves [OF assms(1) Tree_init_names [OF assms]] .

lemma mixed_names_raise:
  assumes "distinct (list_set (map (node_names t) nms))"
    and "set (list_set (map (node_names t) nms)) = set (map (node_names t) nms)"
    and "a \<in> set nms" and "node_names t a = None"
    and "b \<in> set nms" and "node_names t b \<noteq> None"
    and "\<forall>x \<in> set nms. \<forall>n. node_names t x = Some n \<longrightarrow> resolves t n"
  shows "get_common_ancestor list_set t nms = Some (Inl TypeError, t)"
proof -
  let ?nodes = "list_set (map (node_names t) nms)"
  from assms(3,4) have none: "None \<in> set ?nodes" by (simp add: assms(2)) (metis imageI)
  from assms(5,6) obtain n where "Some n \<in> set ?nodes"
    by (simp add: assms(2)) (metis imageI not_None_eq)
  with none assms(1) have len: "length ?nodes \<noteq> 1"
    by (cases ?nodes) auto
  have "\<forall>n. Some n \<in> set ?nodes \<longrightarrow> resolves t n"
    using assms(7) by (auto simp: assms(2))
  from get_paths_total [OF this] none obtain got where
    got: "get_paths t ?nodes = Some (got, t)" and "None \<in> set got" by blast
  then have "those got = None" by (simp add: those_None)
  with len got show ?thesis by (simp add: get_common_ancestor_def Let_def)
qed

text \<open>
  C1 asks that a list of names with one that resolves and one that does not ends in a
  result without classification, as a list of unresolvable names alone does. The code
  raises instead: on any tree that \<open>Tree.__init__\<close> builds from distinct clade objects,
  whatever the order in which the distinct nodes are listed, the path of the unresolved
  name is \<open>None\<close>, and sorting the paths by length raises \<open>TypeError\<close>.
\<close>

theorem mixed_names_TypeError:
  assumes "distinct (idents tr)" and "t = Tree_init tr nm rows"
    and "distinct (list_set (map (node_names t) nms))"
    and "set (list_set (map (node_names t) nms)) = set (map (node_names t) nms)"
    and "a \<in> set nms" and "node_names t a = None"
    and "b \<in> set nms" and "node_names t b \<noteq> None"
  shows "get_common_ancestor list_set t nms = Some (Inl TypeError, t)"
proof -
  have res: "\<forall>x \<in> set nms. \<forall>n. node_names t x = Some n \<longrightarrow> resolves t n"
    using Tree_init_names_resolve [OF assms(1)] by (auto simp: assms(2))
  show ?thesis
    by (rule mixed_names_raise [where list_set = list_set and t = t and nms = nms
          and a = a and b = b, OF assms(3-8) res])
qed

lemma ex_clade_distinct: "distinct (idents ex_clade)"
  by (simp add: ex_clade_def)

theorem mixed_names_TypeError_witness:
  "get_common_ancestor remdups ex [''Metazoa'', ''XY000001''] = Some (Inl TypeError, ex)"
  using mixed_names_TypeError [OF ex_clade_distinct ex_def, where list_set = remdups
      and nms = "[''Metazoa'', ''XY000001'']" and a = "''XY000001''" and b = "''Metazoa''"]
  by (simp add: ex_node_names)

text \<open>
  On such a tree \<open>get_path\<close> returns a path for every clade, and climbing from any clade
  with any weakest identity returns a clade that resolves.
\<close>

lemma Tree_init_get_path:
  assumes "distinct (idents tr)" and "n \<in> set (idents (tree (Tree_init tr nm rows)))"
  shows "\<exists>path. get_path (Tree_init tr nm rows) (Some n) = Some (Some path, Tree_init tr nm rows)"
  using Tree_init_resolves [OF assms] by (rule get_path_resolves)

lemma Tree_init_climb:
  assumes "distinct (idents tr)" and "n \<in> set (idents (tree (Tree_init tr nm rows)))"
    and "percent_ids hits \<noteq> []"
  shows "\<exists>m. climb (Tree_init tr nm rows) hits (Some n) = Some (Inr m, Tree_init tr nm rows) \<and>
             resolves (Tree_init tr nm rows) m"
proof -
  let ?T = "Tree_init tr nm rows"
  from Tree_init_resolves [OF assms(1,2)] obtain p where
    lin: "lineage ?T (root ?T) p" and n: "n = last (root ?T # p)"
    unfolding resolves_def by blast
  let ?m = "hd (dropWhile (below_threshold ?T hits) (rev p) @ [root ?T])"
  have res: "climb ?T hits (Some n) = Some (Inr ?m, ?T)"
    unfolding n by (rule climb_lineage [OF lin assms(3)])
  have "?m \<in> set (root ?T # p)"
    using hd_dropWhile_mem [of "below_threshold ?T hits" "rev p" "root ?T"] by simp
  then have "resolves ?T ?m"
  proof (cases "?m = root ?T")
    case True
    then show ?thesis unfolding resolves_def by (intro exI [of _ "[]"]) simp
  next
    case False
    with \<open>?m \<in> set (root ?T # p)\<close> have "?m \<in> set p" by simp
    then obtain i where i: "i < length p" "p ! i = ?m" by (auto simp: in_set_conv_nth)
    have "lineage ?T (root ?T) (take (Suc i) p)" using lin by (rule lineage_take)
    moreover have "last (root ?T # take (Suc i) p) = ?m"
      using i by (simp add: take_Suc_conv_app_nth)
    ultimately show ?thesis unfolding resolves_def by (metis (no_types))
  qed
  with res show ?thesis by blast
qed

end
